theory Spec2Isabelle
  imports Main "HOL-Library.AList" "HOL-Library.Char_ord" "HOL-Library.List_Lexorder"
begin

section \<open>The Word Ladder II engine of \<^verbatim>\<open>src/App.tsx\<close>\<close>

text \<open>
  The component computes, in a chain of memoised values, the word array \<^verbatim>\<open>words\<close>, the
  wildcard index \<^verbatim>\<open>patternBuckets\<close>, the BFS frame sequence \<^verbatim>\<open>frames\<close> and the sorted list
  of shortest ladders \<^verbatim>\<open>allPaths\<close>. Each memo is modelled as a function of the values it
  depends on. Strings are lists of 8-bit characters, so the model covers ASCII input, on
  which \<^verbatim>\<open>toLowerCase\<close> keeps the length of a string. A JavaScript \<^verbatim>\<open>Set\<close> is a duplicate-free
  list in insertion order; an object used as a dictionary is an association list of its own
  properties, looked up through \<^verbatim>\<open>Object.prototype\<close> where the source does so.
\<close>

subsection \<open>Strings and sets\<close>

definition lowerChar :: "char \<Rightarrow> char" where
  "lowerChar c =
     (if (65::nat) \<le> of_char c \<and> of_char c \<le> (90::nat) then char_of (of_char c + (32::nat)) else c)"

definition toLowerCase :: "string \<Rightarrow> string" where
  "toLowerCase s = map lowerChar s"

text \<open>\<^verbatim>\<open>set.add(x)\<close>: a Set keeps insertion order and ignores an element it already has.\<close>

definition setAdd :: "'a list \<Rightarrow> 'a \<Rightarrow> 'a list" where
  "setAdd xs x = (if x \<in> set xs then xs else xs @ [x])"

text \<open>\<^verbatim>\<open>new Set(array)\<close> and \<^verbatim>\<open>Array.from(set)\<close>: the first occurrence of each element, in order.\<close>

definition newSet :: "'a list \<Rightarrow> 'a list" where
  "newSet xs = fold (\<lambda>x acc. setAdd acc x) xs []"

subsection \<open>The word array\<close>

text \<open>
  \<^verbatim>\<open>wordListText.split(/\r?\n|,|\s+/).map((w) => w.trim().toLowerCase()).filter(Boolean)\<close>.
  Every character the regular expression consumes is white space or a comma, and every such
  character is consumed by one of its alternatives; the pieces that survive
  \<^verbatim>\<open>filter(Boolean)\<close> are therefore the maximal runs of other characters, which
  \<^verbatim>\<open>trim\<close> leaves alone. \<open>splitPieces\<close> cuts at every separator character; the empty pieces
  it produces between adjacent separators are the ones the filter drops.
\<close>

definition isSeparator :: "char \<Rightarrow> bool" where
  "isSeparator c = (c = CHR '','' \<or> (of_char c :: nat) \<in> {9, 10, 11, 12, 13, 32})"

fun splitPieces :: "string \<Rightarrow> string \<Rightarrow> string list" where
  "splitPieces cur [] = [cur]"
| "splitPieces cur (c # cs) =
     (if isSeparator c then cur # splitPieces [] cs else splitPieces (cur @ [c]) cs)"

definition "words" :: "string \<Rightarrow> string \<Rightarrow> string list" where
  "words wordListText endWord =
     (let st = newSet (filter (\<lambda>w. w \<noteq> []) (map toLowerCase (splitPieces [] wordListText)))
      in if toLowerCase endWord \<in> set st then st else st @ [toLowerCase endWord])"

definition wordLen :: "string \<Rightarrow> nat" where
  "wordLen beginWord = length beginWord"

subsection \<open>The neighbour index\<close>

text \<open>\<^verbatim>\<open>w.slice(0, i) + "*" + w.slice(i + 1)\<close>\<close>

definition patternKey :: "string \<Rightarrow> nat \<Rightarrow> string" where
  "patternKey w i = take i w @ ''*'' @ drop (i + 1) w"

text \<open>
  \<^verbatim>\<open>buckets\<close> is a plain object whose keys all contain the character \<^verbatim>\<open>*\<close>; no property of
  \<^verbatim>\<open>Object.prototype\<close> has such a name, so a lookup only ever sees the object's own
  properties. \<^verbatim>\<open>(buckets[key] ||= []).push(w)\<close> creates the array on first use.
\<close>

type_synonym Buckets = "(string \<times> string list) list"

definition bucketOf :: "Buckets \<Rightarrow> string \<Rightarrow> string list" where
  "bucketOf buckets key = (case map_of buckets key of None \<Rightarrow> [] | Some arr \<Rightarrow> arr)"

definition pushBucket :: "string \<Rightarrow> string \<Rightarrow> Buckets \<Rightarrow> Buckets" where
  "pushBucket key w buckets = AList.update key (bucketOf buckets key @ [w]) buckets"

definition addWord :: "nat \<Rightarrow> string \<Rightarrow> Buckets \<Rightarrow> Buckets" where
  "addWord wl w buckets = fold (\<lambda>i b. pushBucket (patternKey w i) w b) [0..<wl] buckets"

definition patternBuckets :: "string list \<Rightarrow> nat \<Rightarrow> string \<Rightarrow> Buckets" where
  "patternBuckets ws wl beginWord =
     (let buckets = fold (\<lambda>w b. if length w \<noteq> wl then b else addWord wl w b) ws []
      in if length beginWord = wl then addWord wl (toLowerCase beginWord) buckets else buckets)"

definition getNeighbors :: "nat \<Rightarrow> Buckets \<Rightarrow> string \<Rightarrow> string list" where
  "getNeighbors wl buckets w =
     fold (\<lambda>i res.
            fold (\<lambda>v r. if v \<noteq> w \<and> length v = length w then setAdd r v else r)
              (bucketOf buckets (patternKey w i)) res)
       [0..<wl] []"

subsection \<open>The parents object\<close>

text \<open>
  \<^verbatim>\<open>parents\<close> is created as \<^verbatim>\<open>{}\<close> and indexed by words. Reading \<^verbatim>\<open>parents[k]\<close> yields the
  Set stored under \<open>k\<close> when the object has that property of its own, the value inherited
  from \<^verbatim>\<open>Object.prototype\<close> when \<open>k\<close> names one of its properties (a function or an object:
  truthy, with no \<^verbatim>\<open>add\<close> method and not iterable), and \<^verbatim>\<open>undefined\<close> otherwise.
\<close>

type_synonym Parents = "(string \<times> string list) list"

datatype jsval = Undefined | SetVal "string list" | Inherited

datatype error = TypeError

definition objectPrototypeProps :: "string list" where
  "objectPrototypeProps =
     [''constructor'', ''__proto__'', ''hasOwnProperty'', ''isPrototypeOf'',
      ''propertyIsEnumerable'', ''toLocaleString'', ''toString'', ''valueOf'',
      ''__defineGetter__'', ''__defineSetter__'', ''__lookupGetter__'', ''__lookupSetter__'']"

definition getProp :: "Parents \<Rightarrow> string \<Rightarrow> jsval" where
  "getProp obj k =
     (case map_of obj k of
        Some s \<Rightarrow> SetVal s
      | None \<Rightarrow> if k \<in> set objectPrototypeProps then Inherited else Undefined)"

text \<open>A \<^verbatim>\<open>for\<close> loop whose body may throw: the first exception ends the loop.\<close>

fun foldE :: "('a \<Rightarrow> 's \<Rightarrow> error + 's) \<Rightarrow> 'a list \<Rightarrow> 's \<Rightarrow> error + 's" where
  "foldE f [] s = Inr s"
| "foldE f (x # xs) s = (case f x s of Inl e \<Rightarrow> Inl e | Inr s' \<Rightarrow> foldE f xs s')"

subsection \<open>The layered BFS\<close>

record BFSFrame =
  level :: nat
  frontier :: "string list"
  nextFrontier :: "string list"
  visitedSnapshot :: "string list"
  parentsSnapshot :: Parents
  found :: bool

text \<open>
  The body of the inner loop, for one neighbour of one frontier node:
  \<^verbatim>\<open>if (!visited.has(nei)) { if (!parents[nei]) parents[nei] = new Set();
  parents[nei].add(node); next.add(nei); }\<close>.
  An inherited value is truthy, so no Set is created, and calling its missing \<^verbatim>\<open>add\<close>
  throws a TypeError.
\<close>

definition visitNeighbor ::
  "string list \<Rightarrow> string \<Rightarrow> string \<Rightarrow> Parents \<times> string list \<Rightarrow> error + Parents \<times> string list" where
  "visitNeighbor visited node nei st =
     (case st of (parents, next) \<Rightarrow>
        if nei \<in> set visited then Inr (parents, next)
        else (case getProp parents nei of
                Undefined \<Rightarrow> Inr (AList.update nei [node] parents, setAdd next nei)
              | SetVal s \<Rightarrow> Inr (AList.update nei (setAdd s node) parents, setAdd next nei)
              | Inherited \<Rightarrow> Inl TypeError))"

definition expandLevel ::
  "nat \<Rightarrow> Buckets \<Rightarrow> string list \<Rightarrow> string list \<Rightarrow> Parents \<Rightarrow> error + Parents \<times> string list" where
  "expandLevel wl buckets visited front parents =
     foldE (\<lambda>node. foldE (visitNeighbor visited node) (getNeighbors wl buckets node))
       front (parents, [])"

definition bucketWords :: "Buckets \<Rightarrow> string set" where
  "bucketWords buckets = (\<Union>kv \<in> set buckets. set (snd kv))"

subsection \<open>Facts about one BFS level\<close>

lemma set_setAdd [simp]: "set (setAdd xs x) = insert x (set xs)"
  by (auto simp: setAdd_def)

lemma distinct_setAdd [simp]: "distinct (setAdd xs x) = distinct xs"
  by (auto simp: setAdd_def)

lemma set_fold_setAdd_if:
  "set (fold (\<lambda>v r. if P v then setAdd r v else r) xs r) = set r \<union> {v \<in> set xs. P v}"
  by (induction xs arbitrary: r) auto

lemma distinct_fold_setAdd_if:
  "distinct (fold (\<lambda>v r. if P v then setAdd r v else r) xs r) = distinct r"
  by (induction xs arbitrary: r) auto

lemma set_fold_setAdd [simp]: "set (fold (\<lambda>n v. setAdd v n) xs r) = set r \<union> set xs"
  by (induction xs arbitrary: r) auto

lemma distinct_fold_setAdd [simp]: "distinct (fold (\<lambda>n v. setAdd v n) xs r) = distinct r"
  by (induction xs arbitrary: r) auto

lemma set_getNeighbors_aux:
  "set (fold (\<lambda>i res. fold (\<lambda>v r. if v \<noteq> w \<and> length v = length w then setAdd r v else r)
              (bucketOf b (patternKey w i)) res) is r0)
   = set r0 \<union> {v. v \<noteq> w \<and> length v = length w \<and> (\<exists>i \<in> set is. v \<in> set (bucketOf b (patternKey w i)))}"
  by (induction "is" arbitrary: r0) (auto simp: set_fold_setAdd_if)

lemma distinct_getNeighbors_aux:
  "distinct (fold (\<lambda>i res. fold (\<lambda>v r. if v \<noteq> w \<and> length v = length w then setAdd r v else r)
              (bucketOf b (patternKey w i)) res) is r0) = distinct r0"
  by (induction "is" arbitrary: r0) (auto simp: distinct_fold_setAdd_if)

lemma set_getNeighbors:
  "set (getNeighbors wl b w) =
     {v. v \<noteq> w \<and> length v = length w \<and> (\<exists>i < wl. v \<in> set (bucketOf b (patternKey w i)))}"
  unfolding getNeighbors_def set_getNeighbors_aux by auto

lemma distinct_getNeighbors [simp]: "distinct (getNeighbors wl b w)"
  unfolding getNeighbors_def distinct_getNeighbors_aux by simp

lemma bucketOf_subset: "set (bucketOf b k) \<subseteq> bucketWords b"
proof
  fix x assume "x \<in> set (bucketOf b k)"
  then obtain arr where "map_of b k = Some arr" "x \<in> set arr"
    by (cases "map_of b k") (auto simp: bucketOf_def)
  then have "(k, arr) \<in> set b" by (auto dest: map_of_SomeD)
  with \<open>x \<in> set arr\<close> show "x \<in> bucketWords b"
    unfolding bucketWords_def by force
qed

lemma getNeighbors_subset: "set (getNeighbors wl b w) \<subseteq> bucketWords b"
  using bucketOf_subset by (auto simp: set_getNeighbors)

lemma finite_bucketWords [simp]: "finite (bucketWords b)"
  by (simp add: bucketWords_def)

definition ownSet :: "Parents \<Rightarrow> string \<Rightarrow> string list" where
  "ownSet parents w = (case map_of parents w of None \<Rightarrow> [] | Some s \<Rightarrow> s)"

definition newNodes :: "nat \<Rightarrow> Buckets \<Rightarrow> string list \<Rightarrow> string list \<Rightarrow> string set" where
  "newNodes wl b visited fr = (\<Union>node \<in> set fr. set (getNeighbors wl b node)) - set visited"

lemma getProp_Inherited:
  "getProp parents k = Inherited \<longleftrightarrow> map_of parents k = None \<and> k \<in> set objectPrototypeProps"
  by (auto simp: getProp_def split: option.splits)

lemma setAdd_idem [simp]: "setAdd (setAdd s x) x = setAdd s x"
  by (simp add: setAdd_def)

lemma visitNeighbor_visited:
  "nei \<in> set visited \<Longrightarrow> visitNeighbor visited node nei (parents, next) = Inr (parents, next)"
  by (simp add: visitNeighbor_def)

lemma visitNeighbor_error:
  "nei \<notin> set visited \<Longrightarrow> getProp parents nei = Inherited \<Longrightarrow>
   visitNeighbor visited node nei (parents, next) = Inl TypeError"
  by (simp add: visitNeighbor_def)

lemma visitNeighbor_new:
  "nei \<notin> set visited \<Longrightarrow> getProp parents nei \<noteq> Inherited \<Longrightarrow>
   visitNeighbor visited node nei (parents, next) =
     Inr (AList.update nei (setAdd (ownSet parents nei) node) parents, setAdd next nei)"
  by (auto simp: visitNeighbor_def getProp_def ownSet_def setAdd_def split: option.splits)

lemma diff_visited_Cons:
  "set (nei # neis) - set visited =
     (if nei \<in> set visited then set neis - set visited else insert nei (set neis - set visited))"
  by auto

lemma expandNode_error:
  "\<exists>nei \<in> set neis - set visited. getProp parents nei = Inherited \<Longrightarrow>
   foldE (visitNeighbor visited node) neis (parents, next) = Inl TypeError"
proof (induction neis arbitrary: parents "next")
  case Nil
  then show ?case by simp
next
  case (Cons nei neis)
  show ?case
  proof (cases "nei \<in> set visited")
    case True
    with Cons.prems have "\<exists>x \<in> set neis - set visited. getProp parents x = Inherited" by auto
    from Cons.IH[OF this] True show ?thesis by (simp add: visitNeighbor_visited)
  next
    case False
    show ?thesis
    proof (cases "getProp parents nei = Inherited")
      case True
      with False show ?thesis by (simp add: visitNeighbor_error)
    next
      case nI: False
      let ?p = "AList.update nei (setAdd (ownSet parents nei) node) parents"
      have gp: "getProp ?p x = Inherited \<longleftrightarrow> x \<noteq> nei \<and> getProp parents x = Inherited" for x
        using nI by (auto simp: getProp_Inherited update_conv')
      from Cons.prems nI have "\<exists>x \<in> set neis - set visited. getProp ?p x = Inherited"
        by (auto simp: gp)
      from Cons.IH[OF this] show ?thesis
        by (simp add: visitNeighbor_new[OF False nI])
    qed
  qed
qed

lemma expandNode_ok:
  "\<forall>nei \<in> set neis - set visited. getProp parents nei \<noteq> Inherited \<Longrightarrow>
   \<exists>parents' next'.
     foldE (visitNeighbor visited node) neis (parents, next) = Inr (parents', next') \<and>
     set next' = set next \<union> (set neis - set visited) \<and>
     (distinct next \<longrightarrow> distinct next') \<and>
     (\<forall>w. w \<in> set neis - set visited \<longrightarrow>
          map_of parents' w = Some (setAdd (ownSet parents w) node)) \<and>
     (\<forall>w. w \<notin> set neis - set visited \<longrightarrow> map_of parents' w = map_of parents w)"
proof (induction neis arbitrary: parents "next")
  case Nil
  then show ?case by simp
next
  case (Cons nei neis)
  show ?case
  proof (cases "nei \<in> set visited")
    case True
    with Cons.prems have "\<forall>x \<in> set neis - set visited. getProp parents x \<noteq> Inherited" by auto
    from Cons.IH[OF this, of "next"] True show ?thesis
      by (simp add: visitNeighbor_visited diff_visited_Cons)
  next
    case False
    with Cons.prems have nI: "getProp parents nei \<noteq> Inherited" by auto
    let ?p = "AList.update nei (setAdd (ownSet parents nei) node) parents"
    have gp: "getProp ?p x = Inherited \<longleftrightarrow> x \<noteq> nei \<and> getProp parents x = Inherited" for x
      using nI by (auto simp: getProp_Inherited update_conv')
    have os: "ownSet ?p x = (if x = nei then setAdd (ownSet parents nei) node else ownSet parents x)" for x
      by (simp add: ownSet_def update_conv')
    from Cons.prems have "\<forall>x \<in> set neis - set visited. getProp ?p x \<noteq> Inherited"
      by (auto simp: gp)
    from Cons.IH[OF this, of "setAdd next nei"] obtain parents' next' where
      r: "foldE (visitNeighbor visited node) neis (?p, setAdd next nei) = Inr (parents', next')"
      and n: "set next' = set (setAdd next nei) \<union> (set neis - set visited)"
      and d: "distinct (setAdd next nei) \<longrightarrow> distinct next'"
      and m1: "\<forall>w. w \<in> set neis - set visited \<longrightarrow>
                 map_of parents' w = Some (setAdd (ownSet ?p w) node)"
      and m2: "\<forall>w. w \<notin> set neis - set visited \<longrightarrow> map_of parents' w = map_of ?p w"
      by blast
    have a: "set next' = set next \<union> (set (nei # neis) - set visited)"
      using n False by auto
    have b: "\<forall>w. w \<in> set (nei # neis) - set visited \<longrightarrow>
                 map_of parents' w = Some (setAdd (ownSet parents w) node)"
    proof (intro allI impI)
      fix w assume w: "w \<in> set (nei # neis) - set visited"
      show "map_of parents' w = Some (setAdd (ownSet parents w) node)"
      proof (cases "w \<in> set neis - set visited")
        case True
        with m1 show ?thesis by (simp add: os)
      next
        case nT: False
        with w have "w = nei" by auto
        with m2 nT show ?thesis by (simp add: update_conv')
      qed
    qed
    have c: "\<forall>w. w \<notin> set (nei # neis) - set visited \<longrightarrow> map_of parents' w = map_of parents w"
      using m2 False by (auto simp: update_conv')
    show ?thesis
      using r a b c d by (simp add: visitNeighbor_new[OF False nI])
  qed
qed

lemma newNodes_Cons:
  "newNodes wl b visited (node # fr) =
     (set (getNeighbors wl b node) - set visited) \<union> newNodes wl b visited fr"
  by (auto simp: newNodes_def)

lemma newNodes_Nil [simp]: "newNodes wl b visited [] = {}"
  by (simp add: newNodes_def)

lemma newNodes_iff:
  "w \<in> newNodes wl b visited fr \<longleftrightarrow>
     w \<notin> set visited \<and> (\<exists>node \<in> set fr. w \<in> set (getNeighbors wl b node))"
  by (auto simp: newNodes_def)

lemma levelFold_error:
  "\<exists>nei \<in> newNodes wl b visited fr. getProp parents nei = Inherited \<Longrightarrow>
   foldE (\<lambda>node. foldE (visitNeighbor visited node) (getNeighbors wl b node)) fr (parents, next)
     = Inl TypeError"
proof (induction fr arbitrary: parents "next")
  case Nil
  then show ?case by simp
next
  case (Cons node fr)
  let ?A = "set (getNeighbors wl b node) - set visited"
  show ?case
  proof (cases "\<exists>nei \<in> ?A. getProp parents nei = Inherited")
    case True
    from expandNode_error[OF this] show ?thesis by simp
  next
    case False
    then have "\<forall>nei \<in> ?A. getProp parents nei \<noteq> Inherited" by blast
    from expandNode_ok[OF this, of node "next"] obtain p1 n1 where
      r: "foldE (visitNeighbor visited node) (getNeighbors wl b node) (parents, next) = Inr (p1, n1)"
      and m2: "\<forall>w. w \<notin> ?A \<longrightarrow> map_of p1 w = map_of parents w"
      by blast
    from Cons.prems False obtain nei where
      nei: "nei \<in> newNodes wl b visited fr" "getProp parents nei = Inherited" "nei \<notin> ?A"
      by (auto simp: newNodes_Cons)
    with m2 have "getProp p1 nei = Inherited" by (simp add: getProp_def)
    with nei(1) have "\<exists>nei \<in> newNodes wl b visited fr. getProp p1 nei = Inherited" by blast
    from Cons.IH[OF this] show ?thesis by (simp add: r)
  qed
qed

lemma levelFold_ok:
  "\<forall>nei \<in> newNodes wl b visited fr. getProp parents nei \<noteq> Inherited \<Longrightarrow>
   \<exists>parents' next'.
     foldE (\<lambda>node. foldE (visitNeighbor visited node) (getNeighbors wl b node)) fr (parents, next)
       = Inr (parents', next') \<and>
     set next' = set next \<union> newNodes wl b visited fr \<and>
     (distinct next \<longrightarrow> distinct next') \<and>
     (\<forall>w. w \<in> newNodes wl b visited fr \<longrightarrow>
          (\<exists>s'. map_of parents' w = Some s' \<and>
                set s' = set (ownSet parents w) \<union> {node \<in> set fr. w \<in> set (getNeighbors wl b node)} \<and>
                (distinct (ownSet parents w) \<longrightarrow> distinct s'))) \<and>
     (\<forall>w. w \<notin> newNodes wl b visited fr \<longrightarrow> map_of parents' w = map_of parents w)"
proof (induction fr arbitrary: parents "next")
  case Nil
  then show ?case by simp
next
  case (Cons node fr)
  let ?A = "set (getNeighbors wl b node) - set visited"
  let ?X = "newNodes wl b visited fr"
  from Cons.prems have "\<forall>nei \<in> ?A. getProp parents nei \<noteq> Inherited"
    by (simp add: newNodes_Cons)
  from expandNode_ok[OF this, of node "next"] obtain p1 n1 where
    r: "foldE (visitNeighbor visited node) (getNeighbors wl b node) (parents, next) = Inr (p1, n1)"
    and n1: "set n1 = set next \<union> ?A"
    and d1: "distinct next \<longrightarrow> distinct n1"
    and m1: "\<forall>w. w \<in> ?A \<longrightarrow> map_of p1 w = Some (setAdd (ownSet parents w) node)"
    and m2: "\<forall>w. w \<notin> ?A \<longrightarrow> map_of p1 w = map_of parents w"
    by blast
  have os: "ownSet p1 w = (if w \<in> ?A then setAdd (ownSet parents w) node else ownSet parents w)" for w
    using m1 m2 by (simp add: ownSet_def)
  have "\<forall>nei \<in> ?X. getProp p1 nei \<noteq> Inherited"
  proof
    fix nei assume nei: "nei \<in> ?X"
    show "getProp p1 nei \<noteq> Inherited"
    proof (cases "nei \<in> ?A")
      case True
      with m1 show ?thesis by (simp add: getProp_def)
    next
      case False
      with m2 have "map_of p1 nei = map_of parents nei" by simp
      moreover from Cons.prems nei have "getProp parents nei \<noteq> Inherited"
        by (simp add: newNodes_Cons)
      ultimately show ?thesis by (simp add: getProp_def)
    qed
  qed
  from Cons.IH[OF this, of n1] obtain parents' next' where
    r2: "foldE (\<lambda>node. foldE (visitNeighbor visited node) (getNeighbors wl b node)) fr (p1, n1)
           = Inr (parents', next')"
    and n2: "set next' = set n1 \<union> ?X"
    and d2: "distinct n1 \<longrightarrow> distinct next'"
    and k1: "\<forall>w. w \<in> ?X \<longrightarrow>
          (\<exists>s'. map_of parents' w = Some s' \<and>
                set s' = set (ownSet p1 w) \<union> {node \<in> set fr. w \<in> set (getNeighbors wl b node)} \<and>
                (distinct (ownSet p1 w) \<longrightarrow> distinct s'))"
    and k2: "\<forall>w. w \<notin> ?X \<longrightarrow> map_of parents' w = map_of p1 w"
    by blast
  have a: "set next' = set next \<union> newNodes wl b visited (node # fr)"
    using n1 n2 by (auto simp: newNodes_Cons)
  have b: "\<forall>w. w \<in> newNodes wl b visited (node # fr) \<longrightarrow>
          (\<exists>s'. map_of parents' w = Some s' \<and>
                set s' = set (ownSet parents w) \<union>
                         {n \<in> set (node # fr). w \<in> set (getNeighbors wl b n)} \<and>
                (distinct (ownSet parents w) \<longrightarrow> distinct s'))"
  proof (intro allI impI)
    fix w assume w: "w \<in> newNodes wl b visited (node # fr)"
    then have wv: "w \<notin> set visited" by (simp add: newNodes_iff)
    show "\<exists>s'. map_of parents' w = Some s' \<and>
                set s' = set (ownSet parents w) \<union>
                         {n \<in> set (node # fr). w \<in> set (getNeighbors wl b n)} \<and>
                (distinct (ownSet parents w) \<longrightarrow> distinct s')"
    proof (cases "w \<in> ?X")
      case True
      with k1 obtain s' where s': "map_of parents' w = Some s'"
        "set s' = set (ownSet p1 w) \<union> {node \<in> set fr. w \<in> set (getNeighbors wl b node)}"
        "distinct (ownSet p1 w) \<longrightarrow> distinct s'" by blast
      have "set s' = set (ownSet parents w) \<union>
                         {n \<in> set (node # fr). w \<in> set (getNeighbors wl b n)}"
        using s'(2) wv by (auto simp: os)
      moreover have "distinct (ownSet parents w) \<longrightarrow> distinct s'"
        using s'(3) by (simp add: os)
      ultimately show ?thesis using s'(1) by blast
    next
      case False
      with w have wA: "w \<in> ?A" by (simp add: newNodes_Cons)
      from False wv have none: "{n \<in> set fr. w \<in> set (getNeighbors wl b n)} = {}"
        by (auto simp: newNodes_iff)
      from k2 False m1 wA have "map_of parents' w = Some (setAdd (ownSet parents w) node)"
        by simp
      moreover have "set (setAdd (ownSet parents w) node) = set (ownSet parents w) \<union>
                         {n \<in> set (node # fr). w \<in> set (getNeighbors wl b n)}"
        using wA none by auto
      ultimately show ?thesis by simp
    qed
  qed
  have c: "\<forall>w. w \<notin> newNodes wl b visited (node # fr) \<longrightarrow> map_of parents' w = map_of parents w"
    using k2 m2 by (simp add: newNodes_Cons)
  show ?case
    using r r2 a b c d1 d2 by simp
qed

lemma expandLevel_error:
  "\<exists>nei \<in> newNodes wl b visited fr. getProp parents nei = Inherited \<Longrightarrow>
   expandLevel wl b visited fr parents = Inl TypeError"
  unfolding expandLevel_def by (rule levelFold_error)

lemma expandLevel_ok:
  assumes "\<forall>nei \<in> newNodes wl b visited fr. getProp parents nei \<noteq> Inherited"
  shows "\<exists>parents' next'.
     expandLevel wl b visited fr parents = Inr (parents', next') \<and>
     set next' = newNodes wl b visited fr \<and> distinct next' \<and>
     (\<forall>w. w \<in> newNodes wl b visited fr \<longrightarrow>
          (\<exists>s'. map_of parents' w = Some s' \<and>
                set s' = set (ownSet parents w) \<union> {node \<in> set fr. w \<in> set (getNeighbors wl b node)} \<and>
                (distinct (ownSet parents w) \<longrightarrow> distinct s'))) \<and>
     (\<forall>w. w \<notin> newNodes wl b visited fr \<longrightarrow> map_of parents' w = map_of parents w)"
  using levelFold_ok[OF assms, of "[]"] unfolding expandLevel_def by simp

lemma expandLevel_next:
  assumes "expandLevel wl b visited fr parents = Inr (parents', nextArr)"
  shows "set nextArr = newNodes wl b visited fr"
proof (cases "\<exists>nei \<in> newNodes wl b visited fr. getProp parents nei = Inherited")
  case True
  from expandLevel_error[OF this] assms show ?thesis by simp
next
  case False
  then have "\<forall>nei \<in> newNodes wl b visited fr. getProp parents nei \<noteq> Inherited" by blast
  from expandLevel_ok[OF this] assms show ?thesis by auto
qed

lemma newNodes_subset: "newNodes wl b visited fr \<subseteq> bucketWords b - set visited"
  using getNeighbors_subset by (auto simp: newNodes_def)

subsection \<open>The BFS loop\<close>

text \<open>
  The \<^verbatim>\<open>while (frontier.length && !found)\<close> loop. \<^verbatim>\<open>found\<close> is only set immediately before
  \<^verbatim>\<open>break\<close>, so it is false at every test of the loop condition. The snapshot copies of a
  frame are the values themselves.
\<close>

function bfsLoop ::
  "nat \<Rightarrow> Buckets \<Rightarrow> string \<Rightarrow> string list \<Rightarrow> Parents \<Rightarrow> string list \<Rightarrow> nat \<Rightarrow> BFSFrame list
     \<Rightarrow> error + BFSFrame list" where
  "bfsLoop wl buckets tgt visited parents front lvl out =
     (if front = [] then Inr out
      else (case expandLevel wl buckets visited front parents of
              Inl e \<Rightarrow> Inl e
            | Inr (parents', nextArr) \<Rightarrow>
                (let visited' = fold (\<lambda>n v. setAdd v n) nextArr visited;
                     frame = \<lparr>level = lvl, frontier = front, nextFrontier = nextArr,
                              visitedSnapshot = visited', parentsSnapshot = parents',
                              found = (tgt \<in> set nextArr)\<rparr>
                 in if tgt \<in> set nextArr then Inr (out @ [frame])
                    else bfsLoop wl buckets tgt visited' parents' nextArr (lvl + 1) (out @ [frame]))))"
  by pat_completeness auto

termination
proof (relation "measure (\<lambda>(wl, b, tgt, visited, parents, front, lvl, out).
          card (bucketWords b - set visited) + (if front = [] then 0 else 1))", goal_cases)
  case 1
  show ?case by simp
next
  case (2 wl b tgt visited parents front lvl out x2 parents' nextArr visited' frame)
  from 2(2) 2(3) have "expandLevel wl b visited front parents = Inr (parents', nextArr)"
    by simp
  then have "set nextArr = newNodes wl b visited front"
    by (rule expandLevel_next)
  with newNodes_subset have sub: "set nextArr \<subseteq> bucketWords b - set visited" by simp
  show ?case
  proof (cases "nextArr = []")
    case True
    with 2 show ?thesis by simp
  next
    case False
    then obtain n where n: "n \<in> set nextArr" by (cases nextArr) auto
    have "bucketWords b - (set visited \<union> set nextArr) \<subset> bucketWords b - set visited"
      using sub n by auto
    then have "card (bucketWords b - (set visited \<union> set nextArr)) < card (bucketWords b - set visited)"
      by (intro psubset_card_mono) simp_all
    with 2 False show ?thesis by simp
  qed
qed

declare bfsLoop.simps [simp del]

text \<open>
  \<^verbatim>\<open>frames\<close>: the early return for words of different length, then the loop from
  \<^verbatim>\<open>visited = {src}\<close>, \<^verbatim>\<open>parents = {}\<close>, \<^verbatim>\<open>frontier = [src]\<close>, \<^verbatim>\<open>level = 0\<close>.
\<close>

definition frames :: "string \<Rightarrow> string \<Rightarrow> nat \<Rightarrow> Buckets \<Rightarrow> error + BFSFrame list" where
  "frames beginWord endWord wl buckets =
     (let src = toLowerCase beginWord; tgt = toLowerCase endWord
      in if length src \<noteq> length tgt then Inr []
         else bfsLoop wl buckets tgt (setAdd [] src) [] [src] 0 [])"

subsection \<open>Path reconstruction\<close>

definition finalParents :: "BFSFrame list \<Rightarrow> Parents" where
  "finalParents fs = (if fs = [] then [] else parentsSnapshot (last fs))"

definition parentWords :: "Parents \<Rightarrow> string set" where
  "parentWords fp = (\<Union>kv \<in> set fp. set (snd kv))"

lemma foldE_cong [fundef_cong]:
  "xs = ys \<Longrightarrow> s = t \<Longrightarrow> (\<And>x u. x \<in> set ys \<Longrightarrow> f x u = g x u) \<Longrightarrow> foldE f xs s = foldE g ys t"
proof (induction ys arbitrary: xs s t)
  case Nil
  then show ?case by simp
next
  case (Cons y ys)
  then show ?case by (auto split: sum.splits)
qed

lemma getProp_SetVal: "getProp fp w = SetVal ps \<longleftrightarrow> map_of fp w = Some ps"
  by (auto simp: getProp_def split: option.splits)

lemma map_of_parentWords: "map_of fp w = Some ps \<Longrightarrow> set ps \<subseteq> parentWords fp"
  unfolding parentWords_def by (force dest: map_of_SomeD)

text \<open>
  The recursive \<^verbatim>\<open>dfs\<close>. It pushes onto \<^verbatim>\<open>path\<close> and \<^verbatim>\<open>visiting\<close> before the recursive call
  and pops the same element after it, so both are passed by value here and only the
  result list \<^verbatim>\<open>res\<close> is threaded through. Iterating an inherited value with
  \<^verbatim>\<open>for (const p of ps)\<close> throws a TypeError: it is not iterable.
\<close>

function dfs ::
  "Parents \<Rightarrow> string \<Rightarrow> string list \<Rightarrow> string list \<Rightarrow> string \<Rightarrow> string list list
     \<Rightarrow> error + string list list" where
  "dfs fp src path visiting w res =
     (if w = src then Inr (res @ [rev path])
      else (case getProp fp w of
              Undefined \<Rightarrow> Inr res
            | Inherited \<Rightarrow> Inl TypeError
            | SetVal ps \<Rightarrow>
                foldE (\<lambda>p r. if p \<in> set visiting then Inr r
                              else dfs fp src (path @ [p]) (setAdd visiting p) p r) ps res))"
  by pat_completeness auto

termination
proof (relation "measure (\<lambda>(fp, src, path, visiting, w, res). card (parentWords fp - set visiting))",
       goal_cases)
  case 1
  show ?case by simp
next
  case (2 fp src path visiting w res ps p r)
  from 2(2) have "map_of fp w = Some ps" by (simp add: getProp_SetVal)
  with 2(3) have "p \<in> parentWords fp" using map_of_parentWords by blast
  with 2(4) have "parentWords fp - insert p (set visiting) \<subset> parentWords fp - set visiting"
    by auto
  then have "card (parentWords fp - insert p (set visiting)) < card (parentWords fp - set visiting)"
    by (intro psubset_card_mono) (simp_all add: parentWords_def)
  then show ?case by simp
qed

declare dfs.simps [simp del]

text \<open>\<^verbatim>\<open>a.join("->")\<close>\<close>

fun joinArrow :: "string list \<Rightarrow> string" where
  "joinArrow [] = []"
| "joinArrow [w] = w"
| "joinArrow (w # ws) = w @ ''->'' @ joinArrow ws"

text \<open>
  \<^verbatim>\<open>res.sort((a, b) => a.join("->").localeCompare(b.join("->")))\<close>. The collation behind
  \<^verbatim>\<open>localeCompare\<close> belongs to the host, so it is a parameter \<open>cmp\<close> of the model, negative
  where its first argument sorts first. \<^verbatim>\<open>Array.prototype.sort\<close> is stable: an element is
  placed before the first one that it sorts strictly before.
\<close>

fun insertSorted :: "('a \<Rightarrow> 'a \<Rightarrow> int) \<Rightarrow> 'a \<Rightarrow> 'a list \<Rightarrow> 'a list" where
  "insertSorted c x [] = [x]"
| "insertSorted c x (y # ys) = (if c x y < 0 then x # y # ys else y # insertSorted c x ys)"

definition stableSort :: "('a \<Rightarrow> 'a \<Rightarrow> int) \<Rightarrow> 'a list \<Rightarrow> 'a list" where
  "stableSort c xs = fold (insertSorted c) xs []"

definition allPaths ::
  "(string \<Rightarrow> string \<Rightarrow> int) \<Rightarrow> Parents \<Rightarrow> string \<Rightarrow> string \<Rightarrow> error + string list list" where
  "allPaths cmp fp beginWord endWord =
     (let src = toLowerCase beginWord; tgt = toLowerCase endWord
      in if getProp fp tgt = Undefined then Inr []
         else (case dfs fp src [tgt] (setAdd [] tgt) tgt [] of
                 Inl e \<Rightarrow> Inl e
               | Inr res \<Rightarrow> Inr (stableSort (\<lambda>a b. cmp (joinArrow a) (joinArrow b)) res)))"

text \<open>
  The component evaluates its memos in order, \<^verbatim>\<open>frames\<close> from \<^verbatim>\<open>patternBuckets\<close> and
  \<^verbatim>\<open>allPaths\<close> from the last frame of \<^verbatim>\<open>frames\<close>; an exception thrown by one of them ends
  the render. \<open>ladderFrames\<close> and \<open>ladderPaths\<close> are the two values as functions of the
  inputs and the word array.
\<close>

definition ladderFrames :: "string \<Rightarrow> string \<Rightarrow> string list \<Rightarrow> error + BFSFrame list" where
  "ladderFrames beginWord endWord ws =
     frames beginWord endWord (wordLen beginWord)
       (patternBuckets ws (wordLen beginWord) beginWord)"

definition ladderPaths ::
  "(string \<Rightarrow> string \<Rightarrow> int) \<Rightarrow> string \<Rightarrow> string \<Rightarrow> string list \<Rightarrow> error + string list list" where
  "ladderPaths cmp beginWord endWord ws =
     (case ladderFrames beginWord endWord ws of
        Inl e \<Rightarrow> Inl e
      | Inr fs \<Rightarrow> allPaths cmp (finalParents fs) beginWord endWord)"

text \<open>
  One collation a host may use: the lexicographic order of the character codes. It serves
  as the concrete comparison wherever a run of the engine is evaluated.
\<close>

definition lexCompare :: "string \<Rightarrow> string \<Rightarrow> int" where
  "lexCompare a b = (if a < b then - 1 else if a = b then 0 else 1)"

text \<open>
  Another one: the control characters U+0000 to U+0008, U+000E to U+001F and U+007F are
  ignorable, as they are in the default collation element table of the Unicode collation
  algorithm, and the remaining characters are ordered by their codes. Two strings that
  differ only in ignorable characters compare as equal.
\<close>

definition ignorable :: "char \<Rightarrow> bool" where
  "ignorable c = ((of_char c :: nat) < 9 \<or> (14 \<le> (of_char c :: nat) \<and> (of_char c :: nat) < 32) \<or>
                  (of_char c :: nat) = 127)"

definition ignoringControls :: "string \<Rightarrow> string \<Rightarrow> int" where
  "ignoringControls a b = lexCompare (filter (\<lambda>c. \<not> ignorable c) a) (filter (\<lambda>c. \<not> ignorable c) b)"

section \<open>Vocabulary of the proofs\<close>

text \<open>
  The definitions below are not part of the code: they name the levels of the search, the
  invariants of the loop, the chains of parent links and the ladders that the claims speak
  about.
\<close>

text \<open>
  For a neighbour function \<open>N\<close> and a source \<open>s\<close>, \<open>layer N s k\<close> is the set of nodes first reached
  after \<open>k\<close> steps and \<open>seen N s k\<close> the set reached after at most \<open>k\<close> steps.
\<close>

fun bfsLayer :: "('a \<Rightarrow> 'a set) \<Rightarrow> 'a \<Rightarrow> nat \<Rightarrow> 'a set \<times> 'a set" where
  "bfsLayer N s 0 = ({s}, {s})"
| "bfsLayer N s (Suc k) =
     (case bfsLayer N s k of (V, F) \<Rightarrow> (V \<union> (\<Union>(N ` F) - V), \<Union>(N ` F) - V))"

definition seen :: "('a \<Rightarrow> 'a set) \<Rightarrow> 'a \<Rightarrow> nat \<Rightarrow> 'a set" where
  "seen N s k = fst (bfsLayer N s k)"

definition layer :: "('a \<Rightarrow> 'a set) \<Rightarrow> 'a \<Rightarrow> nat \<Rightarrow> 'a set" where
  "layer N s k = snd (bfsLayer N s k)"

definition nbrs :: "nat \<Rightarrow> Buckets \<Rightarrow> string \<Rightarrow> string set" where
  "nbrs wl b w = set (getNeighbors wl b w)"

definition parentsOK :: "(string \<Rightarrow> string set) \<Rightarrow> string \<Rightarrow> nat \<Rightarrow> Parents \<Rightarrow> bool" where
  "parentsOK N s k parents \<longleftrightarrow>
     (\<forall>w. (w \<in> seen N s k - {s} \<longrightarrow>
             (\<exists>j<k. \<exists>ps. w \<in> layer N s (Suc j) \<and> map_of parents w = Some ps \<and> distinct ps \<and>
                           set ps = {p \<in> layer N s j. w \<in> N p})) \<and>
          (w \<notin> seen N s k - {s} \<longrightarrow> map_of parents w = None))"

definition frameOK :: "(string \<Rightarrow> string set) \<Rightarrow> string \<Rightarrow> string \<Rightarrow> nat \<Rightarrow> BFSFrame \<Rightarrow> bool" where
  "frameOK N s tgt i f \<longleftrightarrow>
     level f = i \<and> set (frontier f) = layer N s i \<and> frontier f \<noteq> [] \<and> distinct (frontier f) \<and>
     set (nextFrontier f) = layer N s (Suc i) \<and> distinct (nextFrontier f) \<and>
     set (visitedSnapshot f) = seen N s (Suc i) \<and> distinct (visitedSnapshot f) \<and>
     parentsOK N s (Suc i) (parentsSnapshot f) \<and>
     found f = (tgt \<in> layer N s (Suc i)) \<and>
     layer N s (Suc i) \<inter> set objectPrototypeProps = {}"

definition runOK :: "(string \<Rightarrow> string set) \<Rightarrow> string \<Rightarrow> string \<Rightarrow> BFSFrame list \<Rightarrow> bool" where
  "runOK N s tgt fs \<longleftrightarrow>
     (\<forall>i<length fs. frameOK N s tgt i (fs ! i)) \<and>
     (\<forall>i. Suc i < length fs \<longrightarrow> \<not> found (fs ! i)) \<and>
     (fs \<noteq> [] \<longrightarrow> found (last fs) \<or> nextFrontier (last fs) = [])"

definition runErr :: "(string \<Rightarrow> string set) \<Rightarrow> string \<Rightarrow> string \<Rightarrow> bool" where
  "runErr N s tgt \<longleftrightarrow>
     (\<exists>K. (\<forall>i<K. layer N s (Suc i) \<noteq> {} \<and> tgt \<notin> layer N s (Suc i) \<and>
                  layer N s (Suc i) \<inter> set objectPrototypeProps = {}) \<and>
          layer N s (Suc K) \<inter> set objectPrototypeProps \<noteq> {})"

definition bfsInv ::
  "(string \<Rightarrow> string set) \<Rightarrow> string \<Rightarrow> string \<Rightarrow> nat \<Rightarrow> string list \<Rightarrow> Parents \<Rightarrow> string list
     \<Rightarrow> BFSFrame list \<Rightarrow> bool" where
  "bfsInv N s tgt k visited parents front out \<longleftrightarrow>
     set visited = seen N s k \<and> distinct visited \<and> set front = layer N s k \<and> distinct front \<and>
     parentsOK N s k parents \<and> tgt \<notin> seen N s k - {s} \<and> length out = k \<and>
     (\<forall>i<k. frameOK N s tgt i (out ! i) \<and> \<not> found (out ! i))"

text \<open>
  \<open>chainTo fp src V w c\<close>: from \<open>w\<close>, the words \<open>c\<close> follow parent links down to \<open>src\<close>, never
  entering the set \<open>V\<close> of words already on the path.
\<close>

inductive chainTo :: "Parents \<Rightarrow> string \<Rightarrow> string set \<Rightarrow> string \<Rightarrow> string list \<Rightarrow> bool"
  for fp :: Parents and src :: string where
  chain_done: "chainTo fp src V src []"
| chain_step: "w \<noteq> src \<Longrightarrow> map_of fp w = Some ps \<Longrightarrow> p \<in> set ps \<Longrightarrow> p \<notin> V \<Longrightarrow>
               chainTo fp src (insert p V) p c \<Longrightarrow> chainTo fp src V w (p # c)"

definition closedParents :: "Parents \<Rightarrow> string \<Rightarrow> bool" where
  "closedParents fp src \<longleftrightarrow>
     (\<forall>w ps. map_of fp w = Some ps \<longrightarrow>
        distinct ps \<and> (\<forall>p \<in> set ps. p = src \<or> map_of fp p \<noteq> None))"

definition layeredWalk :: "(string \<Rightarrow> string set) \<Rightarrow> string \<Rightarrow> string list \<Rightarrow> bool" where
  "layeredWalk N s P \<longleftrightarrow>
     (\<forall>i<length P. P ! i \<in> layer N s i) \<and> successively (\<lambda>a b. b \<in> N a) P"

text \<open>The paths the reconstruction returns when the last parents map is layered.\<close>

definition shortestWalks :: "(string \<Rightarrow> string set) \<Rightarrow> string \<Rightarrow> string \<Rightarrow> nat \<Rightarrow> string list set" where
  "shortestWalks N s tgt K = {P. layeredWalk N s P \<and> length P = Suc K \<and> last P = tgt}"

definition walkFromTo :: "(string \<Rightarrow> string set) \<Rightarrow> string \<Rightarrow> string \<Rightarrow> string list \<Rightarrow> bool" where
  "walkFromTo N s t P \<longleftrightarrow>
     P \<noteq> [] \<and> hd P = s \<and> last P = t \<and> successively (\<lambda>a b. b \<in> N a) P"

text \<open>\<open>hits wl w k\<close> counts the letter positions of \<open>w\<close> whose wildcard pattern is \<open>k\<close>.\<close>

definition hits :: "nat \<Rightarrow> string \<Rightarrow> string \<Rightarrow> nat" where
  "hits wl w k = length (filter (\<lambda>i. patternKey w i = k) [0..<wl])"

text \<open>Two words are one letter apart when they have the same length and differ at exactly one position.\<close>

definition oneLetterApart :: "string \<Rightarrow> string \<Rightarrow> bool" where
  "oneLetterApart a b \<longleftrightarrow>
     length a = length b \<and>
     (\<exists>i<length a. a ! i \<noteq> b ! i \<and> (\<forall>j<length a. j \<noteq> i \<longrightarrow> a ! j = b ! j))"

text \<open>
  A transformation sequence from \<open>b\<close> to \<open>e\<close>: consecutive words are one letter apart and
  the words strictly between the first and the last are dictionary words.
\<close>

definition isLadder :: "string list \<Rightarrow> string \<Rightarrow> string \<Rightarrow> string list \<Rightarrow> bool" where
  "isLadder ws b e P \<longleftrightarrow>
     P \<noteq> [] \<and> hd P = b \<and> last P = e \<and> successively oneLetterApart P \<and>
     set (butlast (tl P)) \<subseteq> set ws"

definition shortestLadder :: "string list \<Rightarrow> string \<Rightarrow> string \<Rightarrow> string list \<Rightarrow> bool" where
  "shortestLadder ws b e P \<longleftrightarrow>
     isLadder ws b e P \<and> (\<forall>Q. isLadder ws b e Q \<longrightarrow> length P \<le> length Q)"

section \<open>The levels of a breadth-first search\<close>

lemma seen_0 [simp]: "seen N s 0 = {s}" by (simp add: seen_def)

lemma layer_0 [simp]: "layer N s 0 = {s}" by (simp add: layer_def)

lemma layer_Suc: "layer N s (Suc k) = \<Union>(N ` layer N s k) - seen N s k"
  by (simp add: layer_def seen_def split: prod.splits)

lemma seen_Suc: "seen N s (Suc k) = seen N s k \<union> layer N s (Suc k)"
  by (simp add: layer_def seen_def split: prod.splits)

lemma layer_subset_seen: "layer N s k \<subseteq> seen N s k"
  by (cases k) (auto simp: seen_Suc)

lemma seen_mono: "i \<le> j \<Longrightarrow> seen N s i \<subseteq> seen N s j"
  by (induction j) (auto simp: seen_Suc le_Suc_eq)

lemma src_in_seen: "s \<in> seen N s k"
  using seen_mono[of 0 k N s] by auto

lemma layer_Suc_disjoint_seen: "w \<in> layer N s (Suc k) \<Longrightarrow> w \<notin> seen N s k"
  by (simp add: layer_Suc)

lemma layer_disjoint: "i < j \<Longrightarrow> w \<in> layer N s i \<Longrightarrow> w \<notin> layer N s j"
proof -
  assume ij: "i < j" and w: "w \<in> layer N s i"
  then obtain j' where j': "j = Suc j'" by (cases j) auto
  from w layer_subset_seen[of N s i] have "w \<in> seen N s i" by blast
  with seen_mono[of i j' N s] ij j' have "w \<in> seen N s j'" by auto
  with j' show ?thesis by (auto dest: layer_Suc_disjoint_seen)
qed

lemma layer_unique: "w \<in> layer N s i \<Longrightarrow> w \<in> layer N s j \<Longrightarrow> i = j"
  using layer_disjoint[of i j w N s] layer_disjoint[of j i w N s] by (cases i j rule: linorder_cases) auto

lemma seen_layer: "w \<in> seen N s k \<Longrightarrow> \<exists>j \<le> k. w \<in> layer N s j"
proof (induction k)
  case 0
  then show ?case by simp
next
  case (Suc k)
  then show ?case by (auto simp: seen_Suc intro: le_SucI)
qed

lemma src_notin_layer_Suc: "s \<notin> layer N s (Suc k)"
  using src_in_seen[of s N k] by (auto simp: layer_Suc)

lemma seen_step: "w \<in> seen N s k \<Longrightarrow> v \<in> N w \<Longrightarrow> v \<in> seen N s (Suc k)"
proof -
  assume w: "w \<in> seen N s k" and v: "v \<in> N w"
  from seen_layer[OF w] obtain j where j: "j \<le> k" "w \<in> layer N s j" by blast
  with v have "v \<in> seen N s j \<or> v \<in> layer N s (Suc j)" by (auto simp: layer_Suc)
  then have "v \<in> seen N s (Suc j)" by (auto simp: seen_Suc)
  with seen_mono[of "Suc j" "Suc k" N s] j(1) show ?thesis by auto
qed

lemma newNodes_layer:
  assumes "set visited = seen (nbrs wl b) s k" "set front = layer (nbrs wl b) s k"
  shows "newNodes wl b visited front = layer (nbrs wl b) s (Suc k)"
  using assms by (simp add: newNodes_def layer_Suc nbrs_def)

lemma parentsOK_new:
  assumes pk: "parentsOK N s k parents"
    and nw: "\<forall>w. w \<in> layer N s (Suc k) \<longrightarrow>
          (\<exists>s'. map_of parents' w = Some s' \<and>
                set s' = set (ownSet parents w) \<union> {node \<in> layer N s k. w \<in> N node} \<and>
                (distinct (ownSet parents w) \<longrightarrow> distinct s'))"
    and old: "\<forall>w. w \<notin> layer N s (Suc k) \<longrightarrow> map_of parents' w = map_of parents w"
  shows "parentsOK N s (Suc k) parents'"
  unfolding parentsOK_def
proof (intro allI conjI impI)
  fix w assume w: "w \<in> seen N s (Suc k) - {s}"
  show "\<exists>j<Suc k. \<exists>ps. w \<in> layer N s (Suc j) \<and> map_of parents' w = Some ps \<and> distinct ps \<and>
                           set ps = {p \<in> layer N s j. w \<in> N p}"
  proof (cases "w \<in> layer N s (Suc k)")
    case True
    then have "w \<notin> seen N s k" by (rule layer_Suc_disjoint_seen)
    with pk have "map_of parents w = None" by (simp add: parentsOK_def)
    then have os: "ownSet parents w = []" by (simp add: ownSet_def)
    from nw True obtain s' where "map_of parents' w = Some s'"
      "set s' = set (ownSet parents w) \<union> {node \<in> layer N s k. w \<in> N node}"
      "distinct (ownSet parents w) \<longrightarrow> distinct s'" by blast
    with os True show ?thesis by auto
  next
    case False
    with w have "w \<in> seen N s k - {s}" by (simp add: seen_Suc)
    with pk obtain j ps where "j < k" "w \<in> layer N s (Suc j)" "map_of parents w = Some ps"
      "distinct ps" "set ps = {p \<in> layer N s j. w \<in> N p}"
      unfolding parentsOK_def by blast
    with old False show ?thesis by (auto intro!: exI[of _ j])
  qed
next
  fix w assume w: "w \<notin> seen N s (Suc k) - {s}"
  then have nl: "w \<notin> layer N s (Suc k)"
    using src_notin_layer_Suc[of s N k] by (auto simp: seen_Suc)
  from w have "w \<notin> seen N s k - {s}" by (auto simp: seen_Suc)
  with pk have "map_of parents w = None" by (simp add: parentsOK_def)
  with old nl show "map_of parents' w = None" by simp
qed

lemma bfs_step_error:
  assumes "set visited = seen (nbrs wl b) s k" "set front = layer (nbrs wl b) s k"
    and "parentsOK (nbrs wl b) s k parents"
    and "layer (nbrs wl b) s (Suc k) \<inter> set objectPrototypeProps \<noteq> {}"
  shows "expandLevel wl b visited front parents = Inl TypeError"
proof -
  from assms(4) obtain nei where nei: "nei \<in> layer (nbrs wl b) s (Suc k)"
    "nei \<in> set objectPrototypeProps" by blast
  then have "nei \<notin> seen (nbrs wl b) s k" by (auto dest: layer_Suc_disjoint_seen)
  with assms(3) have "map_of parents nei = None" by (simp add: parentsOK_def)
  with nei(2) have "getProp parents nei = Inherited" by (simp add: getProp_Inherited)
  with nei(1) have "\<exists>nei \<in> newNodes wl b visited front. getProp parents nei = Inherited"
    using newNodes_layer[OF assms(1,2)] by blast
  then show ?thesis by (rule expandLevel_error)
qed

lemma bfs_step_ok:
  assumes v: "set visited = seen (nbrs wl b) s k" and f: "set front = layer (nbrs wl b) s k"
    and pk: "parentsOK (nbrs wl b) s k parents"
    and np: "layer (nbrs wl b) s (Suc k) \<inter> set objectPrototypeProps = {}"
  shows "\<exists>parents' nextArr. expandLevel wl b visited front parents = Inr (parents', nextArr) \<and>
           set nextArr = layer (nbrs wl b) s (Suc k) \<and> distinct nextArr \<and>
           parentsOK (nbrs wl b) s (Suc k) parents'"
proof -
  note nl = newNodes_layer[OF v f]
  have "\<forall>nei \<in> newNodes wl b visited front. getProp parents nei \<noteq> Inherited"
    using np by (auto simp: nl getProp_Inherited)
  from expandLevel_ok[OF this] obtain parents' nextArr where
    r: "expandLevel wl b visited front parents = Inr (parents', nextArr)"
    and n: "set nextArr = newNodes wl b visited front" and d: "distinct nextArr"
    and nw: "\<forall>w. w \<in> newNodes wl b visited front \<longrightarrow>
          (\<exists>s'. map_of parents' w = Some s' \<and>
                set s' = set (ownSet parents w) \<union> {node \<in> set front. w \<in> set (getNeighbors wl b node)} \<and>
                (distinct (ownSet parents w) \<longrightarrow> distinct s'))"
    and old: "\<forall>w. w \<notin> newNodes wl b visited front \<longrightarrow> map_of parents' w = map_of parents w"
    by blast
  have nw': "\<forall>w. w \<in> layer (nbrs wl b) s (Suc k) \<longrightarrow>
          (\<exists>s'. map_of parents' w = Some s' \<and>
                set s' = set (ownSet parents w) \<union> {node \<in> layer (nbrs wl b) s k. w \<in> nbrs wl b node} \<and>
                (distinct (ownSet parents w) \<longrightarrow> distinct s'))"
    using nw unfolding nl f by (simp add: nbrs_def[symmetric])
  have old': "\<forall>w. w \<notin> layer (nbrs wl b) s (Suc k) \<longrightarrow> map_of parents' w = map_of parents w"
    using old unfolding nl .
  have "parentsOK (nbrs wl b) s (Suc k) parents'"
    by (rule parentsOK_new[OF pk nw' old'])
  with r n d show ?thesis by (simp add: nl)
qed

lemma bfsLoop_empty: "bfsLoop wl b tgt visited parents [] k out = Inr out"
  by (simp add: bfsLoop.simps)

lemma bfsLoop_error:
  "front \<noteq> [] \<Longrightarrow> expandLevel wl b visited front parents = Inl e \<Longrightarrow>
   bfsLoop wl b tgt visited parents front k out = Inl e"
  by (simp add: bfsLoop.simps)

lemma bfsLoop_found:
  "front \<noteq> [] \<Longrightarrow> expandLevel wl b visited front parents = Inr (parents', nextArr) \<Longrightarrow>
   tgt \<in> set nextArr \<Longrightarrow>
   bfsLoop wl b tgt visited parents front k out =
     Inr (out @ [\<lparr>level = k, frontier = front, nextFrontier = nextArr,
                  visitedSnapshot = fold (\<lambda>n v. setAdd v n) nextArr visited,
                  parentsSnapshot = parents', found = True\<rparr>])"
  by (simp add: bfsLoop.simps)

lemma bfsLoop_continue:
  "front \<noteq> [] \<Longrightarrow> expandLevel wl b visited front parents = Inr (parents', nextArr) \<Longrightarrow>
   tgt \<notin> set nextArr \<Longrightarrow>
   bfsLoop wl b tgt visited parents front k out =
     bfsLoop wl b tgt (fold (\<lambda>n v. setAdd v n) nextArr visited) parents' nextArr (k + 1)
       (out @ [\<lparr>level = k, frontier = front, nextFrontier = nextArr,
                  visitedSnapshot = fold (\<lambda>n v. setAdd v n) nextArr visited,
                  parentsSnapshot = parents', found = False\<rparr>])"
  by (subst bfsLoop.simps) (simp add: Let_def)

lemma runOK_exhausted:
  assumes "bfsInv N s tgt k visited parents [] out"
  shows "runOK N s tgt out"
  unfolding runOK_def
proof (intro conjI allI impI)
  fix i assume "i < length out"
  with assms show "frameOK N s tgt i (out ! i)" by (simp add: bfsInv_def)
next
  fix i assume "Suc i < length out"
  with assms show "\<not> found (out ! i)" by (simp add: bfsInv_def)
next
  assume ne: "out \<noteq> []"
  with assms have k: "0 < k" "length out = k" by (auto simp: bfsInv_def)
  then have l: "last out = out ! (k - 1)" using ne by (simp add: last_conv_nth)
  from assms k have "frameOK N s tgt (k - 1) (out ! (k - 1))" by (simp add: bfsInv_def)
  then have "set (nextFrontier (out ! (k - 1))) = layer N s k"
    using k by (simp add: frameOK_def)
  moreover from assms have "layer N s k = {}" by (simp add: bfsInv_def)
  ultimately show "found (last out) \<or> nextFrontier (last out) = []" using l by simp
qed

lemma runErr_here:
  assumes inv: "bfsInv N s tgt k visited parents front out" and ne: "front \<noteq> []"
    and pr: "layer N s (Suc k) \<inter> set objectPrototypeProps \<noteq> {}"
  shows "runErr N s tgt"
  unfolding runErr_def
proof (rule exI[of _ k], rule conjI, intro allI impI)
  fix i assume i: "i < k"
  from inv i have fo: "frameOK N s tgt i (out ! i)" "\<not> found (out ! i)"
    by (simp_all add: bfsInv_def)
  have "layer N s (Suc i) \<noteq> {}"
  proof (cases "Suc i < k")
    case True
    with inv have "frameOK N s tgt (Suc i) (out ! Suc i)" by (simp add: bfsInv_def)
    then show ?thesis by (auto simp: frameOK_def)
  next
    case False
    with i have "Suc i = k" by simp
    with inv ne show ?thesis by (auto simp: bfsInv_def)
  qed
  moreover from fo have "tgt \<notin> layer N s (Suc i)" by (simp add: frameOK_def)
  moreover from fo have "layer N s (Suc i) \<inter> set objectPrototypeProps = {}"
    by (simp add: frameOK_def)
  ultimately show "layer N s (Suc i) \<noteq> {} \<and> tgt \<notin> layer N s (Suc i) \<and>
                  layer N s (Suc i) \<inter> set objectPrototypeProps = {}" by simp
qed (rule pr)

lemma frameOK_new:
  assumes inv: "bfsInv N s tgt k visited parents front out" and ne: "front \<noteq> []"
    and np: "layer N s (Suc k) \<inter> set objectPrototypeProps = {}"
    and n: "set nextArr = layer N s (Suc k)" and d: "distinct nextArr"
    and pk: "parentsOK N s (Suc k) parents'"
  shows "frameOK N s tgt k \<lparr>level = k, frontier = front, nextFrontier = nextArr,
                  visitedSnapshot = fold (\<lambda>n v. setAdd v n) nextArr visited,
                  parentsSnapshot = parents', found = (tgt \<in> set nextArr)\<rparr>"
  using assms by (simp add: frameOK_def bfsInv_def seen_Suc)

lemma runOK_found:
  assumes inv: "bfsInv N s tgt k visited parents front out"
    and fr: "frameOK N s tgt k f" and fd: "found f"
  shows "runOK N s tgt (out @ [f])"
  unfolding runOK_def
proof (intro conjI allI impI)
  fix i assume "i < length (out @ [f])"
  with inv fr show "frameOK N s tgt i ((out @ [f]) ! i)"
    by (auto simp: bfsInv_def nth_append less_Suc_eq)
next
  fix i assume "Suc i < length (out @ [f])"
  with inv show "\<not> found ((out @ [f]) ! i)" by (simp add: bfsInv_def nth_append)
next
  from fd show "found (last (out @ [f])) \<or> nextFrontier (last (out @ [f])) = []" by simp
qed

lemma bfsInv_next:
  assumes inv: "bfsInv N s tgt k visited parents front out"
    and fr: "frameOK N s tgt k f" and fd: "\<not> found f"
    and n: "set nextArr = layer N s (Suc k)" and d: "distinct nextArr"
    and pk: "parentsOK N s (Suc k) parents'"
  shows "bfsInv N s tgt (k + 1) (fold (\<lambda>n v. setAdd v n) nextArr visited) parents' nextArr (out @ [f])"
proof -
  from fr fd have "tgt \<notin> layer N s (Suc k)" by (simp add: frameOK_def)
  with inv have "tgt \<notin> seen N s (Suc k) - {s}" by (simp add: bfsInv_def seen_Suc)
  moreover have "\<forall>i<Suc k. frameOK N s tgt i ((out @ [f]) ! i) \<and> \<not> found ((out @ [f]) ! i)"
    using inv fr fd by (auto simp: bfsInv_def nth_append less_Suc_eq)
  ultimately show ?thesis
    using inv n d pk by (simp add: bfsInv_def seen_Suc)
qed

lemma bfsLoop_run:
  "bfsInv (nbrs wl b) s tgt k visited parents front out \<Longrightarrow>
   (case bfsLoop wl b tgt visited parents front k out of
      Inr fs \<Rightarrow> runOK (nbrs wl b) s tgt fs
    | Inl e \<Rightarrow> runErr (nbrs wl b) s tgt)"
proof (induction wl b tgt visited parents front k out rule: bfsLoop.induct)
  case (1 wl b tgt visited parents front k out)
  note inv = "1.prems"
  let ?N = "nbrs wl b"
  show ?case
  proof (cases "front = []")
    case True
    with inv runOK_exhausted[of ?N s tgt k visited parents out] show ?thesis
      by (simp add: bfsLoop_empty)
  next
    case ne: False
    from inv have v: "set visited = seen ?N s k" and f: "set front = layer ?N s k"
      and pk: "parentsOK ?N s k parents" by (simp_all add: bfsInv_def)
    show ?thesis
    proof (cases "layer ?N s (Suc k) \<inter> set objectPrototypeProps = {}")
      case False
      from bfs_step_error[OF v f pk False] have "bfsLoop wl b tgt visited parents front k out = Inl TypeError"
        by (rule bfsLoop_error[OF ne])
      with runErr_here[OF inv ne False] show ?thesis by simp
    next
      case np: True
      from bfs_step_ok[OF v f pk np] obtain parents' nextArr where
        r: "expandLevel wl b visited front parents = Inr (parents', nextArr)"
        and n: "set nextArr = layer ?N s (Suc k)" and d: "distinct nextArr"
        and pk': "parentsOK ?N s (Suc k) parents'" by blast
      let ?visited' = "fold (\<lambda>n v. setAdd v n) nextArr visited"
      let ?frame = "\<lparr>level = k, frontier = front, nextFrontier = nextArr,
                  visitedSnapshot = ?visited', parentsSnapshot = parents',
                  found = (tgt \<in> set nextArr)\<rparr>"
      have fr: "frameOK ?N s tgt k ?frame"
        by (rule frameOK_new[OF inv ne np n d pk'])
      show ?thesis
      proof (cases "tgt \<in> set nextArr")
        case True
        then have "found ?frame" by simp
        from runOK_found[OF inv fr this] True show ?thesis
          by (simp add: bfsLoop_found[OF ne r True])
      next
        case False
        then have nf: "\<not> found ?frame" by simp
        have inv': "bfsInv ?N s tgt (k + 1) ?visited' parents' nextArr (out @ [?frame])"
          by (rule bfsInv_next[OF inv fr nf n d pk'])
        have "case bfsLoop wl b tgt ?visited' parents' nextArr (k + 1) (out @ [?frame]) of
                Inr fs \<Rightarrow> runOK ?N s tgt fs | Inl e \<Rightarrow> runErr ?N s tgt"
          using "1.IH"[OF ne r refl refl refl False inv'] .
        then show ?thesis
          using False by (simp add: bfsLoop_continue[OF ne r False])
      qed
    qed
  qed
qed

section \<open>Backtracking over a parents map\<close>

lemma chainTo_src: "chainTo fp src V src c \<longleftrightarrow> c = []"
  by (auto elim: chainTo.cases intro: chain_done)

lemma chainTo_step_iff:
  "w \<noteq> src \<Longrightarrow> chainTo fp src V w c' \<longleftrightarrow>
     (\<exists>ps p c. c' = p # c \<and> map_of fp w = Some ps \<and> p \<in> set ps \<and> p \<notin> V \<and>
               chainTo fp src (insert p V) p c)"
  by (auto elim: chainTo.cases intro: chain_step)

lemma foldE_collect:
  assumes "\<And>p r. p \<in> set ps \<Longrightarrow> \<exists>cs. step p r = Inr (r @ map (\<lambda>c. rev (path @ p # c)) cs) \<and>
                                     distinct cs \<and> set cs = C p"
    and "distinct ps"
  shows "\<exists>cs. foldE step ps res = Inr (res @ map (\<lambda>c. rev (path @ c)) cs) \<and> distinct cs \<and>
              set cs = {p # c | p c. p \<in> set ps \<and> c \<in> C p}"
  using assms
proof (induction ps arbitrary: res)
  case Nil
  show ?case by (rule exI[of _ "[]"]) simp
next
  case (Cons p ps)
  from Cons.prems(1)[of p res] obtain cs1 where
    s1: "step p res = Inr (res @ map (\<lambda>c. rev (path @ p # c)) cs1)"
    and d1: "distinct cs1" and c1: "set cs1 = C p" by auto
  have "\<exists>cs. foldE step ps (res @ map (\<lambda>c. rev (path @ p # c)) cs1)
            = Inr ((res @ map (\<lambda>c. rev (path @ p # c)) cs1) @ map (\<lambda>c. rev (path @ c)) cs) \<and>
          distinct cs \<and> set cs = {q # c | q c. q \<in> set ps \<and> c \<in> C q}"
    using Cons.prems by (intro Cons.IH) auto
  then obtain cs2 where
    s2: "foldE step ps (res @ map (\<lambda>c. rev (path @ p # c)) cs1)
            = Inr ((res @ map (\<lambda>c. rev (path @ p # c)) cs1) @ map (\<lambda>c. rev (path @ c)) cs2)"
    and d2: "distinct cs2" and c2: "set cs2 = {q # c | q c. q \<in> set ps \<and> c \<in> C q}" by blast
  let ?cs = "map ((#) p) cs1 @ cs2"
  have "foldE step (p # ps) res = Inr (res @ map (\<lambda>c. rev (path @ c)) ?cs)"
    using s1 s2 by (simp add: comp_def)
  moreover have "distinct ?cs"
    using d1 d2 c2 Cons.prems(2) by (auto simp: distinct_map)
  moreover have "set ?cs = {q # c | q c. q \<in> set (p # ps) \<and> c \<in> C q}"
    using c1 c2 by auto
  ultimately show ?case by blast
qed

lemma dfs_src: "dfs fp src path visiting src res = Inr (res @ [rev path])"
  by (simp add: dfs.simps)

lemma dfs_spec:
  assumes "closedParents fp src"
    and "w = src \<or> getProp fp w \<noteq> Inherited"
  shows "\<exists>cs. dfs fp src path visiting w res = Inr (res @ map (\<lambda>c. rev (path @ c)) cs) \<and>
              distinct cs \<and> set cs = {c. chainTo fp src (set visiting) w c}"
  using assms
proof (induction fp src path visiting w res rule: dfs.induct)
  case (1 fp src path visiting w res)
  show ?case
  proof (cases "w = src")
    case True
    show ?thesis
      by (rule exI[of _ "[[]]"]) (simp add: True dfs_src chainTo_src)
  next
    case ne: False
    with "1.prems"(2) have nI: "getProp fp w \<noteq> Inherited" by simp
    show ?thesis
    proof (cases "map_of fp w")
      case None
      with nI have "getProp fp w = Undefined" by (simp add: getProp_def split: if_splits)
      with ne have "dfs fp src path visiting w res = Inr res" by (simp add: dfs.simps)
      moreover from None ne have "{c. chainTo fp src (set visiting) w c} = {}"
        by (simp add: chainTo_step_iff)
      ultimately show ?thesis by (intro exI[of _ "[]"]) simp
    next
      case (Some ps)
      then have gp: "getProp fp w = SetVal ps" by (simp add: getProp_SetVal)
      let ?step = "\<lambda>p r. if p \<in> set visiting then Inr r
                           else dfs fp src (path @ [p]) (setAdd visiting p) p r"
      let ?C = "\<lambda>p. if p \<in> set visiting then {} else {c. chainTo fp src (insert p (set visiting)) p c}"
      have d: "dfs fp src path visiting w res = foldE ?step ps res"
        using ne gp by (subst dfs.simps) simp
      have st: "\<exists>cs. ?step p r = Inr (r @ map (\<lambda>c. rev (path @ p # c)) cs) \<and> distinct cs \<and> set cs = ?C p"
        if p: "p \<in> set ps" for p r
      proof (cases "p \<in> set visiting")
        case True
        then show ?thesis by (intro exI[of _ "[]"]) simp
      next
        case False
        from "1.prems"(1) Some p have "p = src \<or> map_of fp p \<noteq> None"
          unfolding closedParents_def by blast
        then have "p = src \<or> getProp fp p \<noteq> Inherited"
          unfolding getProp_Inherited by blast
        from "1.IH"[OF ne gp p False "1.prems"(1) this]
        obtain cs where "dfs fp src (path @ [p]) (setAdd visiting p) p r
                            = Inr (r @ map (\<lambda>c. rev ((path @ [p]) @ c)) cs)"
          "distinct cs" "set cs = {c. chainTo fp src (set (setAdd visiting p)) p c}" by blast
        with False show ?thesis by (intro exI[of _ cs]) simp
      qed
      from "1.prems"(1) Some have dps: "distinct ps" unfolding closedParents_def by blast
      from foldE_collect[of ps ?step path ?C res, OF st dps]
      obtain cs where cs: "foldE ?step ps res = Inr (res @ map (\<lambda>c. rev (path @ c)) cs)"
        "distinct cs" "set cs = {p # c | p c. p \<in> set ps \<and> c \<in> ?C p}" by blast
      have "{p # c | p c. p \<in> set ps \<and> c \<in> ?C p} = {c. chainTo fp src (set visiting) w c}"
        using ne Some by (auto simp: chainTo_step_iff[OF ne])
      with cs d show ?thesis by (intro exI[of _ cs]) simp
    qed
  qed
qed

lemma parentsOK_lookup:
  assumes "parentsOK N s K fp" "map_of fp w = Some ps"
  shows "\<exists>j<K. w \<in> layer N s (Suc j) \<and> distinct ps \<and> set ps = {p \<in> layer N s j. w \<in> N p}"
proof -
  from assms have "w \<in> seen N s K - {s}" unfolding parentsOK_def by (metis option.distinct(1))
  with assms(1) obtain j ps' where "j < K" "w \<in> layer N s (Suc j)" "map_of fp w = Some ps'"
    "distinct ps'" "set ps' = {p \<in> layer N s j. w \<in> N p}"
    unfolding parentsOK_def by blast
  with assms(2) show ?thesis by auto
qed

lemma parentsOK_key:
  assumes "parentsOK N s K fp" "w \<in> layer N s (Suc j)" "j < K"
  shows "\<exists>ps. map_of fp w = Some ps \<and> distinct ps \<and> set ps = {p \<in> layer N s j. w \<in> N p}"
proof -
  from assms(2) have "w \<in> seen N s (Suc j)" using layer_subset_seen[of N s "Suc j"] by blast
  with seen_mono[of "Suc j" K N s] assms(3) have "w \<in> seen N s K" by auto
  moreover from assms(2) have "w \<noteq> s" using src_notin_layer_Suc[of s N j] by auto
  ultimately have "w \<in> seen N s K - {s}" by simp
  with assms(1) obtain j' ps where j': "j' < K" "w \<in> layer N s (Suc j')" "map_of fp w = Some ps"
    "distinct ps" "set ps = {p \<in> layer N s j'. w \<in> N p}"
    unfolding parentsOK_def by blast
  from layer_unique[OF j'(2) assms(2)] have "j' = j" by simp
  with j' show ?thesis by auto
qed

lemma parentsOK_closed:
  assumes "parentsOK N s K fp"
  shows "closedParents fp s"
  unfolding closedParents_def
proof (intro allI impI conjI ballI)
  fix w ps assume m: "map_of fp w = Some ps"
  from parentsOK_lookup[OF assms m] show "distinct ps" by blast
next
  fix w ps p assume m: "map_of fp w = Some ps" and p: "p \<in> set ps"
  from parentsOK_lookup[OF assms m] p obtain j where j: "j < K" "p \<in> layer N s j" by blast
  show "p = s \<or> map_of fp p \<noteq> None"
  proof (cases j)
    case 0
    with j show ?thesis by simp
  next
    case (Suc j')
    with j parentsOK_key[OF assms, of p j'] show ?thesis by auto
  qed
qed

lemma layeredWalk_snoc:
  "layeredWalk N s (P @ [w]) \<longleftrightarrow>
     layeredWalk N s P \<and> w \<in> layer N s (length P) \<and> (P \<noteq> [] \<longrightarrow> w \<in> N (last P))"
  unfolding layeredWalk_def
  by (auto simp: nth_append less_Suc_eq successively_append_iff all_conj_distrib)

lemma chain_sound:
  assumes ok: "parentsOK N s K fp"
  shows "chainTo fp s V w c \<Longrightarrow> w \<in> layer N s j \<Longrightarrow> j \<le> K \<Longrightarrow>
         length c = j \<and> layeredWalk N s (rev (w # c))"
proof (induction arbitrary: j rule: chainTo.induct)
  case (chain_done V)
  from layer_unique[OF chain_done(1), of 0] have "j = 0" by simp
  then show ?case by (simp add: layeredWalk_def)
next
  case (chain_step w ps p V c)
  from parentsOK_lookup[OF ok chain_step(2)] obtain j0 where
    j0: "j0 < K" "w \<in> layer N s (Suc j0)" "set ps = {p \<in> layer N s j0. w \<in> N p}" by blast
  from layer_unique[OF j0(2) chain_step.prems(1)] have j: "j = Suc j0" by simp
  from j0(3) chain_step(3) have p: "p \<in> layer N s j0" "w \<in> N p" by auto
  from chain_step.IH[OF p(1)] j0(1) have ih: "length c = j0" "layeredWalk N s (rev (p # c))"
    by simp_all
  have "layeredWalk N s (rev (p # c) @ [w])"
    unfolding layeredWalk_snoc using ih p j0(2) by simp
  with ih(1) j show ?case by simp
qed

lemma layeredWalk_distinct_last:
  assumes "layeredWalk N s (P @ [w])"
  shows "w \<notin> set P"
proof
  assume "w \<in> set P"
  then obtain i where i: "i < length P" "P ! i = w" by (auto simp: in_set_conv_nth)
  from assms i have "w \<in> layer N s i" "w \<in> layer N s (length P)"
    unfolding layeredWalk_def by (auto simp: nth_append split: if_splits)
  from layer_unique[OF this] i(1) show False by simp
qed

lemma chain_complete:
  assumes ok: "parentsOK N s K fp"
  shows "layeredWalk N s (P @ [w]) \<Longrightarrow> length P \<le> K \<Longrightarrow> V \<inter> set P = {} \<Longrightarrow>
         chainTo fp s V w (rev P)"
proof (induction P arbitrary: w V rule: rev_induct)
  case Nil
  then have "w = s" by (simp add: layeredWalk_def)
  then show ?case by (simp add: chain_done)
next
  case (snoc p P)
  from snoc.prems(1) have lw: "layeredWalk N s (P @ [p])" and wl: "w \<in> layer N s (Suc (length P))"
    and adj: "w \<in> N p"
    unfolding layeredWalk_snoc[of N s "P @ [p]" w] by simp_all
  from lw have pl: "p \<in> layer N s (length P)" unfolding layeredWalk_snoc by simp
  from wl have ws: "w \<noteq> s" using src_notin_layer_Suc[of s N "length P"] by auto
  from snoc.prems(2) have lt: "length P < K" by simp
  from parentsOK_key[OF ok wl lt] obtain ps where
    ps: "map_of fp w = Some ps" "set ps = {p \<in> layer N s (length P). w \<in> N p}" by blast
  with pl adj have pin: "p \<in> set ps" by simp
  from snoc.prems(3) have pV: "p \<notin> V" by auto
  have "insert p V \<inter> set P = {}"
    using snoc.prems(3) layeredWalk_distinct_last[OF lw] by auto
  from snoc.IH[OF lw _ this] lt have "chainTo fp s (insert p V) p (rev P)" by simp
  from chain_step[OF ws ps(1) pin pV this] show ?case by simp
qed

section \<open>Runs of the engine\<close>

lemma bfsLoop_extends:
  "bfsLoop wl b tgt visited parents front k out = Inr fs \<Longrightarrow>
   \<exists>rest. fs = out @ rest \<and> (front \<noteq> [] \<longrightarrow> rest \<noteq> [])"
proof (induction wl b tgt visited parents front k out rule: bfsLoop.induct)
  case (1 wl b tgt visited parents front k out)
  show ?case
  proof (cases "front = []")
    case True
    with "1.prems" show ?thesis by (simp add: bfsLoop_empty)
  next
    case ne: False
    show ?thesis
    proof (cases "expandLevel wl b visited front parents")
      case (Inl e)
      with "1.prems" ne show ?thesis by (simp add: bfsLoop_error)
    next
      case (Inr x)
      obtain parents' nextArr where x: "x = (parents', nextArr)" by (cases x)
      note r = Inr[unfolded x]
      show ?thesis
      proof (cases "tgt \<in> set nextArr")
        case True
        with "1.prems" show ?thesis by (auto simp: bfsLoop_found[OF ne r True])
      next
        case False
        from "1.prems" have "bfsLoop wl b tgt (fold (\<lambda>n v. setAdd v n) nextArr visited) parents' nextArr (k + 1)
           (out @ [\<lparr>level = k, frontier = front, nextFrontier = nextArr,
                  visitedSnapshot = fold (\<lambda>n v. setAdd v n) nextArr visited,
                  parentsSnapshot = parents', found = (tgt \<in> set nextArr)\<rparr>]) = Inr fs"
          using False by (simp add: bfsLoop_continue[OF ne r False])
        from "1.IH"[OF ne Inr x[symmetric] refl refl False this] show ?thesis by auto
      qed
    qed
  qed
qed

lemma bfsInv_init: "bfsInv N s tgt 0 (setAdd [] s) [] [s] []"
  by (simp add: bfsInv_def parentsOK_def setAdd_def)

lemma frames_mismatch:
  "length (toLowerCase beginWord) \<noteq> length (toLowerCase endWord) \<Longrightarrow>
   frames beginWord endWord wl b = Inr []"
  by (simp add: frames_def)

lemma frames_run:
  assumes "length (toLowerCase beginWord) = length (toLowerCase endWord)"
  shows "case frames beginWord endWord wl b of
           Inr fs \<Rightarrow> runOK (nbrs wl b) (toLowerCase beginWord) (toLowerCase endWord) fs \<and> fs \<noteq> []
         | Inl e \<Rightarrow> runErr (nbrs wl b) (toLowerCase beginWord) (toLowerCase endWord)"
proof -
  let ?s = "toLowerCase beginWord" and ?t = "toLowerCase endWord"
  have f: "frames beginWord endWord wl b = bfsLoop wl b ?t (setAdd [] ?s) [] [?s] 0 []"
    using assms by (simp add: frames_def Let_def)
  from bfsLoop_run[OF bfsInv_init, of wl b ?s ?t]
  have r: "case bfsLoop wl b ?t (setAdd [] ?s) [] [?s] 0 [] of
             Inr fs \<Rightarrow> runOK (nbrs wl b) ?s ?t fs | Inl e \<Rightarrow> runErr (nbrs wl b) ?s ?t" .
  show ?thesis
  proof (cases "bfsLoop wl b ?t (setAdd [] ?s) [] [?s] 0 []")
    case (Inl e)
    with r f show ?thesis by simp
  next
    case (Inr fs)
    from bfsLoop_extends[OF Inr] have "fs \<noteq> []" by auto
    with r f Inr show ?thesis by simp
  qed
qed

text \<open>What a successful run says about its last frame.\<close>

lemma runOK_last:
  assumes "runOK N s tgt fs" "fs \<noteq> []"
  shows "frameOK N s tgt (length fs - 1) (last fs)"
  using assms by (simp add: runOK_def last_conv_nth)

lemma runOK_tgt_not_earlier:
  assumes "runOK N s tgt fs" "Suc i < length fs"
  shows "tgt \<notin> layer N s (Suc i)"
proof -
  from assms have "frameOK N s tgt i (fs ! i)" "\<not> found (fs ! i)" by (simp_all add: runOK_def)
  then show ?thesis by (simp add: frameOK_def)
qed

lemma runOK_tgt_seen:
  assumes ok: "runOK N s tgt fs" and ne: "fs \<noteq> []"
  shows "tgt \<in> seen N s (length fs) - {s} \<longleftrightarrow> found (last fs)"
proof -
  from runOK_last[OF ok ne] ne have fd: "found (last fs) = (tgt \<in> layer N s (length fs))"
    by (simp add: frameOK_def)
  show ?thesis
  proof
    assume t: "tgt \<in> seen N s (length fs) - {s}"
    with seen_layer[of tgt N s "length fs"] obtain j where j: "j \<le> length fs" "tgt \<in> layer N s j"
      by auto
    from t j(2) have "j \<noteq> 0" by (cases j) auto
    then obtain i where i: "j = Suc i" by (cases j) auto
    have "\<not> Suc i < length fs"
    proof
      assume "Suc i < length fs"
      from runOK_tgt_not_earlier[OF ok this] j(2) i show False by simp
    qed
    with j(1) i have "j = length fs" by simp
    with j fd show "found (last fs)" by simp
  next
    assume "found (last fs)"
    with fd have t: "tgt \<in> layer N s (length fs)" by simp
    from ne obtain k where k: "length fs = Suc k" by (cases fs) auto
    with t src_notin_layer_Suc[of s N k] have "tgt \<noteq> s" by auto
    with t layer_subset_seen[of N s "length fs"] show "tgt \<in> seen N s (length fs) - {s}" by auto
  qed
qed

lemma runOK_finalParents:
  assumes "runOK N s tgt fs" "fs \<noteq> []"
  shows "parentsOK N s (length fs) (finalParents fs)"
  using runOK_last[OF assms] assms(2) by (simp add: frameOK_def finalParents_def)

section \<open>What the path reconstruction returns\<close>

lemma set_insertSorted [simp]: "set (insertSorted c x xs) = insert x (set xs)"
  by (induction xs) auto

lemma distinct_insertSorted [simp]: "distinct (insertSorted c x xs) \<longleftrightarrow> x \<notin> set xs \<and> distinct xs"
  by (induction xs) auto

lemma length_insertSorted [simp]: "length (insertSorted c x xs) = Suc (length xs)"
  by (induction xs) auto

lemma set_fold_insertSorted: "set (fold (insertSorted c) xs acc) = set xs \<union> set acc"
  by (induction xs arbitrary: acc) auto

lemma distinct_fold_insertSorted:
  "distinct (fold (insertSorted c) xs acc) \<longleftrightarrow> distinct xs \<and> distinct acc \<and> set xs \<inter> set acc = {}"
  by (induction xs arbitrary: acc) auto

lemma set_stableSort [simp]: "set (stableSort c xs) = set xs"
  by (simp add: stableSort_def set_fold_insertSorted)

lemma distinct_stableSort [simp]: "distinct (stableSort c xs) = distinct xs"
  by (simp add: stableSort_def distinct_fold_insertSorted)

lemma stableSort_Nil [simp]: "stableSort c [] = []"
  by (simp add: stableSort_def)

lemma stableSort_single [simp]: "stableSort c [x] = [x]"
  by (simp add: stableSort_def)

lemma chains_shortestWalks:
  assumes ok: "parentsOK N s K fp" and t: "tgt \<in> layer N s K"
  shows "(\<lambda>c. rev (tgt # c)) ` {c. chainTo fp s {tgt} tgt c} = shortestWalks N s tgt K"
proof (intro set_eqI iffI)
  fix P assume "P \<in> (\<lambda>c. rev (tgt # c)) ` {c. chainTo fp s {tgt} tgt c}"
  then obtain c where c: "chainTo fp s {tgt} tgt c" "P = rev (tgt # c)" by blast
  from chain_sound[OF ok c(1) t] have "length c = K" "layeredWalk N s (rev (tgt # c))" by simp_all
  with c(2) show "P \<in> shortestWalks N s tgt K" by (simp add: shortestWalks_def)
next
  fix P assume "P \<in> shortestWalks N s tgt K"
  then have P: "layeredWalk N s P" "length P = Suc K" "last P = tgt"
    by (simp_all add: shortestWalks_def)
  then have ne: "P \<noteq> []" by auto
  then have Pe: "P = butlast P @ [tgt]" using P(3) by (metis append_butlast_last_id)
  with P(1) have lw: "layeredWalk N s (butlast P @ [tgt])" by simp
  have "{tgt} \<inter> set (butlast P) = {}"
    using layeredWalk_distinct_last[OF lw] by simp
  from chain_complete[OF ok lw _ this] P(2) have "chainTo fp s {tgt} tgt (rev (butlast P))" by simp
  moreover have "P = rev (tgt # rev (butlast P))" using Pe by simp
  ultimately show "P \<in> (\<lambda>c. rev (tgt # c)) ` {c. chainTo fp s {tgt} tgt c}" by blast
qed

lemma allPaths_found:
  assumes ok: "parentsOK N (toLowerCase beginWord) K fp"
    and t: "toLowerCase endWord \<in> layer N (toLowerCase beginWord) K" and K: "0 < K"
  shows "\<exists>res. allPaths cmp fp beginWord endWord
                 = Inr (stableSort (\<lambda>a b. cmp (joinArrow a) (joinArrow b)) res) \<and>
               distinct res \<and>
               set res = shortestWalks N (toLowerCase beginWord) (toLowerCase endWord) K"
proof -
  let ?s = "toLowerCase beginWord" and ?t = "toLowerCase endWord"
  from K obtain j where j: "K = Suc j" by (cases K) auto
  from parentsOK_key[OF ok t[unfolded j]] j obtain ps where ps: "map_of fp ?t = Some ps" by auto
  then have gp: "getProp fp ?t = SetVal ps" by (simp add: getProp_SetVal)
  then have "?t = ?s \<or> getProp fp ?t \<noteq> Inherited" by simp
  from dfs_spec[OF parentsOK_closed[OF ok] this, of "[?t]" "setAdd [] ?t" "[]"]
  obtain cs where cs: "dfs fp ?s [?t] (setAdd [] ?t) ?t [] = Inr (map (\<lambda>c. rev (?t # c)) cs)"
    "distinct cs" "set cs = {c. chainTo fp ?s {?t} ?t c}" by auto
  let ?res = "map (\<lambda>c. rev (?t # c)) cs"
  have "allPaths cmp fp beginWord endWord
          = Inr (stableSort (\<lambda>a b. cmp (joinArrow a) (joinArrow b)) ?res)"
    using gp cs(1) by (simp add: allPaths_def)
  moreover have "distinct ?res"
    using cs(2) by (simp add: distinct_map inj_on_def)
  moreover have "set ?res = shortestWalks N ?s ?t K"
    using chains_shortestWalks[OF ok t] cs(3) by simp
  ultimately show ?thesis by blast
qed

lemma allPaths_notfound:
  assumes "map_of fp (toLowerCase endWord) = None"
  shows "allPaths cmp fp beginWord endWord =
           (if toLowerCase endWord \<notin> set objectPrototypeProps then Inr []
            else if toLowerCase endWord = toLowerCase beginWord then Inr [[toLowerCase endWord]]
            else Inl TypeError)"
proof -
  let ?s = "toLowerCase beginWord" and ?t = "toLowerCase endWord"
  show ?thesis
  proof (cases "?t \<in> set objectPrototypeProps")
    case False
    with assms have "getProp fp ?t = Undefined" by (simp add: getProp_def)
    with False show ?thesis by (simp add: allPaths_def)
  next
    case True
    with assms have gp: "getProp fp ?t = Inherited" by (simp add: getProp_def)
    show ?thesis
    proof (cases "?t = ?s")
      case True
      then have "dfs fp ?s [?t] (setAdd [] ?t) ?t [] = Inr [[?t]]" by (simp add: dfs_src)
      with gp True \<open>?t \<in> set objectPrototypeProps\<close> show ?thesis by (simp add: allPaths_def)
    next
      case False
      with gp have "dfs fp ?s [?t] (setAdd [] ?t) ?t [] = Inl TypeError"
        by (subst dfs.simps) simp
      with gp False \<open>?t \<in> set objectPrototypeProps\<close> show ?thesis by (simp add: allPaths_def)
    qed
  qed
qed

section \<open>Shortest walks\<close>

lemma walk_seen:
  "successively (\<lambda>a b. b \<in> N a) P \<Longrightarrow> P \<noteq> [] \<Longrightarrow> hd P \<in> seen N s j \<Longrightarrow> i < length P \<Longrightarrow>
   P ! i \<in> seen N s (j + i)"
proof (induction P arbitrary: j i)
  case Nil
  then show ?case by simp
next
  case (Cons a P)
  show ?case
  proof (cases i)
    case 0
    with Cons.prems show ?thesis by simp
  next
    case (Suc i')
    with Cons.prems(4) have ne: "P \<noteq> []" and i': "i' < length P" by auto
    from Cons.prems(1) ne have adj: "hd P \<in> N a" and su: "successively (\<lambda>a b. b \<in> N a) P"
      by (auto simp: successively_Cons)
    from Cons.prems(3) have "a \<in> seen N s j" by simp
    from seen_step[of a N s j "hd P", OF this adj] have "hd P \<in> seen N s (Suc j)" .
    from Cons.IH[OF su ne this i'] Suc show ?thesis by simp
  qed
qed

lemma layer_walk:
  "w \<in> layer N s k \<Longrightarrow> \<exists>P. layeredWalk N s P \<and> length P = Suc k \<and> last P = w"
proof (induction k arbitrary: w)
  case 0
  then have "w = s" by simp
  then show ?case by (intro exI[of _ "[s]"]) (simp add: layeredWalk_def)
next
  case (Suc k)
  then obtain p where p: "p \<in> layer N s k" "w \<in> N p" by (auto simp: layer_Suc)
  from Suc.IH[OF p(1)] obtain P where P: "layeredWalk N s P" "length P = Suc k" "last P = p"
    by blast
  then have "P \<noteq> []" by auto
  with P p Suc.prems have "layeredWalk N s (P @ [w])" by (simp add: layeredWalk_snoc)
  with P(2) show ?case by (intro exI[of _ "P @ [w]"]) simp
qed

lemma layer_empty_up: "layer N s j = {} \<Longrightarrow> j \<le> k \<Longrightarrow> layer N s k = {}"
proof (induction k)
  case 0
  then show ?case by simp
next
  case (Suc k)
  show ?case
  proof (cases "j = Suc k")
    case True
    with Suc.prems show ?thesis by simp
  next
    case False
    with Suc have "layer N s k = {}" by simp
    then show ?thesis by (simp add: layer_Suc)
  qed
qed

lemma layeredWalk_hd:
  assumes "layeredWalk N s P" "P \<noteq> []"
  shows "hd P = s"
proof -
  from assms have "P ! 0 \<in> layer N s 0" unfolding layeredWalk_def by auto
  with assms(2) show ?thesis by (simp add: hd_conv_nth)
qed

lemma walk_reaches:
  assumes "walkFromTo N s t P"
  shows "t \<in> seen N s (length P - 1)"
proof -
  from assms have P: "P \<noteq> []" "hd P = s" "last P = t" "successively (\<lambda>a b. b \<in> N a) P"
    by (simp_all add: walkFromTo_def)
  from walk_seen[OF P(4) P(1), of s 0 "length P - 1"] P(1,2)
  have "P ! (length P - 1) \<in> seen N s (length P - 1)" by simp
  with P(1,3) show ?thesis by (simp add: last_conv_nth)
qed

lemma walk_length_ge:
  assumes w: "walkFromTo N s t P" and t: "t \<in> layer N s K"
  shows "Suc K \<le> length P"
proof -
  from seen_layer[OF walk_reaches[OF w]] obtain j where j: "j \<le> length P - 1" "t \<in> layer N s j"
    by blast
  from w have "P \<noteq> []" by (simp add: walkFromTo_def)
  with layer_unique[OF j(2) t] j(1) show ?thesis by (cases P) auto
qed

lemma successively_drop: "successively R P \<Longrightarrow> successively R (drop i P)"
proof -
  assume "successively R P"
  then have "successively R (take i P @ drop i P)" by simp
  then show ?thesis unfolding successively_append_iff by simp
qed

lemma shortest_walk_layered:
  assumes w: "walkFromTo N s t P" and t: "t \<in> layer N s K" and len: "length P = Suc K"
  shows "layeredWalk N s P"
  unfolding layeredWalk_def
proof (intro conjI allI impI)
  from w show "successively (\<lambda>a b. b \<in> N a) P" by (simp add: walkFromTo_def)
next
  fix i assume i: "i < length P"
  from w have P: "P \<noteq> []" "hd P = s" "last P = t" "successively (\<lambda>a b. b \<in> N a) P"
    by (simp_all add: walkFromTo_def)
  from walk_seen[OF P(4) P(1), of s 0 i] P(2) i have "P ! i \<in> seen N s i" by simp
  from seen_layer[OF this] obtain j where j: "j \<le> i" "P ! i \<in> layer N s j" by blast
  have "j = i"
  proof (rule ccontr)
    assume "j \<noteq> i"
    with j(1) have ji: "j < i" by simp
    let ?D = "drop i P"
    from i have Dne: "?D \<noteq> []" by simp
    have hdD: "hd ?D = P ! i" using i by (simp add: hd_drop_conv_nth)
    have lastD: "last ?D = t" using i P(3) by simp
    from j(2) layer_subset_seen[of N s j] hdD have "hd ?D \<in> seen N s j" by auto
    from walk_seen[OF successively_drop[OF P(4)] Dne this, of "length ?D - 1"] Dne
    have "?D ! (length ?D - 1) \<in> seen N s (j + (length ?D - 1))" by simp
    with lastD Dne have "t \<in> seen N s (j + (length ?D - 1))" by (simp add: last_conv_nth)
    from seen_layer[OF this] obtain j' where j': "j' \<le> j + (length ?D - 1)" "t \<in> layer N s j'"
      by blast
    from layer_unique[OF j'(2) t] have "j' = K" .
    with j'(1) ji i len show False by simp
  qed
  with j(2) show "P ! i \<in> layer N s i" by simp
qed

lemma shortestWalks_minimal:
  assumes t: "t \<in> layer N s K"
  shows "shortestWalks N s t K =
           {P. walkFromTo N s t P \<and> (\<forall>Q. walkFromTo N s t Q \<longrightarrow> length P \<le> length Q)}"
proof (intro set_eqI iffI)
  fix P assume "P \<in> shortestWalks N s t K"
  then have P: "layeredWalk N s P" "length P = Suc K" "last P = t"
    by (simp_all add: shortestWalks_def)
  then have ne: "P \<noteq> []" by auto
  from P ne layeredWalk_hd[OF P(1) ne] have "walkFromTo N s t P"
    by (simp add: walkFromTo_def layeredWalk_def)
  moreover have "\<forall>Q. walkFromTo N s t Q \<longrightarrow> length P \<le> length Q"
    using walk_length_ge[OF _ t] P(2) by simp
  ultimately show "P \<in> {P. walkFromTo N s t P \<and> (\<forall>Q. walkFromTo N s t Q \<longrightarrow> length P \<le> length Q)}"
    by simp
next
  fix P assume "P \<in> {P. walkFromTo N s t P \<and> (\<forall>Q. walkFromTo N s t Q \<longrightarrow> length P \<le> length Q)}"
  then have w: "walkFromTo N s t P" and mn: "\<forall>Q. walkFromTo N s t Q \<longrightarrow> length P \<le> length Q"
    by simp_all
  from layer_walk[OF t] obtain Q where Q: "layeredWalk N s Q" "length Q = Suc K" "last Q = t"
    by blast
  then have Qne: "Q \<noteq> []" by auto
  from Q Qne layeredWalk_hd[OF Q(1) Qne] have "walkFromTo N s t Q"
    by (simp add: walkFromTo_def layeredWalk_def)
  with mn Q(2) have "length P \<le> Suc K" by auto
  with walk_length_ge[OF w t] have len: "length P = Suc K" by simp
  from shortest_walk_layered[OF w t len] len w show "P \<in> shortestWalks N s t K"
    by (simp add: shortestWalks_def walkFromTo_def)
qed

section \<open>The contents of the pattern buckets\<close>

lemma bucketOf_pushBucket:
  "bucketOf (pushBucket key w b) k = (if k = key then bucketOf b k @ [w] else bucketOf b k)"
  by (simp add: pushBucket_def bucketOf_def update_conv')

lemma bucketOf_fold_push:
  "bucketOf (fold (\<lambda>i b. pushBucket (patternKey w i) w b) is b) k
     = bucketOf b k @ replicate (length (filter (\<lambda>i. patternKey w i = k) is)) w"
proof (induction "is" arbitrary: b)
  case Nil
  then show ?case by simp
next
  case (Cons i "is")
  show ?case
    by (simp add: Cons.IH bucketOf_pushBucket replicate_app_Cons_same)
qed

lemma bucketOf_addWord:
  "bucketOf (addWord wl w b) k = bucketOf b k @ replicate (hits wl w k) w"
  by (simp add: addWord_def hits_def bucketOf_fold_push)

lemma bucketOf_fold_words:
  "bucketOf (fold (\<lambda>w b. if length w \<noteq> wl then b else addWord wl w b) ws b) k
     = bucketOf b k @ concat (map (\<lambda>w. if length w \<noteq> wl then [] else replicate (hits wl w k) w) ws)"
  by (induction ws arbitrary: b) (simp_all add: bucketOf_addWord)

lemma bucketOf_Nil [simp]: "bucketOf [] k = []"
  by (simp add: bucketOf_def)

lemma bucketOf_patternBuckets:
  "bucketOf (patternBuckets ws wl beginWord) k
     = concat (map (\<lambda>w. if length w \<noteq> wl then [] else replicate (hits wl w k) w) ws) @
       (if length beginWord = wl
        then replicate (hits wl (toLowerCase beginWord) k) (toLowerCase beginWord) else [])"
  by (simp add: patternBuckets_def Let_def bucketOf_fold_words bucketOf_addWord)

lemma hits_pos: "0 < hits wl w k \<longleftrightarrow> (\<exists>i<wl. patternKey w i = k)"
  by (auto simp: hits_def filter_empty_conv)

lemma in_bucket_iff:
  "v \<in> set (bucketOf (patternBuckets ws wl beginWord) k) \<longleftrightarrow>
     ((v \<in> set ws \<and> length v = wl) \<or> (v = toLowerCase beginWord \<and> length beginWord = wl)) \<and>
     (\<exists>i<wl. patternKey v i = k)"
  unfolding bucketOf_patternBuckets using hits_pos[of wl _ k]
  by (auto split: if_splits)

lemma in_nbrs_iff:
  "v \<in> nbrs wl (patternBuckets ws wl beginWord) w \<longleftrightarrow>
     v \<noteq> w \<and> length v = length w \<and>
     ((v \<in> set ws \<and> length v = wl) \<or> (v = toLowerCase beginWord \<and> length beginWord = wl)) \<and>
     (\<exists>i<wl. \<exists>j<wl. patternKey v j = patternKey w i)"
  unfolding nbrs_def set_getNeighbors in_bucket_iff by auto

lemma nbrs_same_words:
  "set ws = set ws' \<Longrightarrow>
   nbrs wl (patternBuckets ws wl beginWord) = nbrs wl (patternBuckets ws' wl beginWord)"
  by (intro ext set_eqI) (simp add: in_nbrs_iff)

section \<open>Neighbours and one-letter changes\<close>

lemma patternKey_nth_self: "i < length w \<Longrightarrow> patternKey w i ! i = CHR ''*''"
  by (simp add: patternKey_def nth_append)

lemma patternKey_nth_other:
  "i < length w \<Longrightarrow> j < length w \<Longrightarrow> j \<noteq> i \<Longrightarrow> patternKey w i ! j = w ! j"
proof -
  assume i: "i < length w" and j: "j < length w" and ne: "j \<noteq> i"
  show ?thesis
  proof (cases "j < i")
    case True
    with i show ?thesis by (simp add: patternKey_def nth_append)
  next
    case False
    with ne obtain d where d: "j = Suc (i + d)" by (metis less_iff_Suc_add linorder_neqE_nat)
    with i j show ?thesis by (simp add: patternKey_def nth_append)
  qed
qed

lemma length_patternKey: "i < length w \<Longrightarrow> length (patternKey w i) = length w"
  by (simp add: patternKey_def)

lemma patternKey_position:
  assumes eq: "patternKey v j = patternKey w i" and i: "i < length w" and j: "j < length v"
    and len: "length v = length w" and star: "CHR ''*'' \<notin> set w"
  shows "j = i"
proof (rule ccontr)
  assume ne: "j \<noteq> i"
  from patternKey_nth_self[OF j] eq have "patternKey w i ! j = CHR ''*''" by simp
  with patternKey_nth_other[OF i _ ne] j len have "w ! j = CHR ''*''" by simp
  with j len star show False by (metis nth_mem)
qed

lemma patternKey_eq_iff:
  assumes i: "i < length w" and len: "length v = length w"
  shows "patternKey v i = patternKey w i \<longleftrightarrow> (\<forall>j<length w. j \<noteq> i \<longrightarrow> v ! j = w ! j)"
proof
  assume eq: "patternKey v i = patternKey w i"
  show "\<forall>j<length w. j \<noteq> i \<longrightarrow> v ! j = w ! j"
  proof (intro allI impI)
    fix j assume j: "j < length w" "j \<noteq> i"
    from patternKey_nth_other[of i v j] patternKey_nth_other[of i w j] i j len eq
    show "v ! j = w ! j" by simp
  qed
next
  assume a: "\<forall>j<length w. j \<noteq> i \<longrightarrow> v ! j = w ! j"
  show "patternKey v i = patternKey w i"
  proof (rule nth_equalityI)
    show "length (patternKey v i) = length (patternKey w i)"
      using i len by (simp add: length_patternKey)
  next
    fix j assume "j < length (patternKey v i)"
    then have j: "j < length w" using i len by (simp add: length_patternKey)
    show "patternKey v i ! j = patternKey w i ! j"
    proof (cases "j = i")
      case True
      with i len show ?thesis by (simp add: patternKey_nth_self)
    next
      case False
      with a j i len show ?thesis by (simp add: patternKey_nth_other)
    qed
  qed
qed

lemma oneLetterApart_pattern:
  "oneLetterApart w v \<longleftrightarrow>
     length v = length w \<and> v \<noteq> w \<and> (\<exists>i<length w. patternKey v i = patternKey w i)"
proof
  assume "oneLetterApart w v"
  then obtain i where len: "length w = length v" and i: "i < length w" "w ! i \<noteq> v ! i"
    "\<forall>j<length w. j \<noteq> i \<longrightarrow> w ! j = v ! j"
    unfolding oneLetterApart_def by blast
  from i(3) have "\<forall>j<length w. j \<noteq> i \<longrightarrow> v ! j = w ! j" by simp
  with patternKey_eq_iff[OF i(1), of v] len have "patternKey v i = patternKey w i" by simp
  moreover from i(2) have "v \<noteq> w" by auto
  ultimately show "length v = length w \<and> v \<noteq> w \<and> (\<exists>i<length w. patternKey v i = patternKey w i)"
    using len i(1) by auto
next
  assume a: "length v = length w \<and> v \<noteq> w \<and> (\<exists>i<length w. patternKey v i = patternKey w i)"
  then obtain i where len: "length v = length w" and ne: "v \<noteq> w" and i: "i < length w"
    and eq: "patternKey v i = patternKey w i" by blast
  from patternKey_eq_iff[OF i len] eq have o: "\<forall>j<length w. j \<noteq> i \<longrightarrow> v ! j = w ! j" by simp
  have "w ! i \<noteq> v ! i"
  proof
    assume "w ! i = v ! i"
    with o have "\<forall>j<length w. v ! j = w ! j" by metis
    with len have "v = w" by (simp add: nth_equalityI)
    with ne show False by simp
  qed
  with o i len show "oneLetterApart w v" unfolding oneLetterApart_def by auto
qed

lemma nbrs_oneLetterApart:
  assumes "v \<in> nbrs wl (patternBuckets ws wl beginWord) w" and "CHR ''*'' \<notin> set w"
  shows "oneLetterApart w v \<and> length w = wl \<and> (v \<in> set ws \<or> v = toLowerCase beginWord)"
proof -
  from assms(1) obtain i j where ne: "v \<noteq> w" and len: "length v = length w"
    and mem: "(v \<in> set ws \<and> length v = wl) \<or> (v = toLowerCase beginWord \<and> length beginWord = wl)"
    and i: "i < wl" and j: "j < wl" and eq: "patternKey v j = patternKey w i"
    unfolding in_nbrs_iff by blast
  from mem have vl: "length v = wl" by (auto simp: toLowerCase_def)
  with len have wl: "length w = wl" by simp
  from patternKey_position[OF eq _ _ len assms(2)] i j vl wl have "j = i" by simp
  with eq i wl have "\<exists>i<length w. patternKey v i = patternKey w i" by auto
  with len ne have "oneLetterApart w v" by (simp add: oneLetterApart_pattern)
  with wl mem show ?thesis by auto
qed

lemma oneLetterApart_nbrs:
  assumes "oneLetterApart w v" and "length w = wl" and "v \<in> set ws"
  shows "v \<in> nbrs wl (patternBuckets ws wl beginWord) w"
proof -
  from assms(1) obtain i where "length v = length w" "v \<noteq> w" "i < length w"
    "patternKey v i = patternKey w i" unfolding oneLetterApart_pattern by blast
  with assms(2,3) show ?thesis unfolding in_nbrs_iff by auto
qed

section \<open>Ladders\<close>

lemma toLowerCase_length [simp]: "length (toLowerCase s) = length s"
  by (simp add: toLowerCase_def)

lemma nbrs_in_dict:
  "v \<in> nbrs wl (patternBuckets ws wl beginWord) w \<Longrightarrow> v \<in> set ws \<or> v = toLowerCase beginWord"
  unfolding in_nbrs_iff by blast

lemma layer_in_dict:
  assumes "w \<in> layer (nbrs wl (patternBuckets ws wl beginWord)) (toLowerCase beginWord) (Suc k)"
  shows "w \<in> set ws"
proof -
  let ?N = "nbrs wl (patternBuckets ws wl beginWord)"
  from assms obtain p where "w \<in> ?N p" by (auto simp: layer_Suc)
  from nbrs_in_dict[OF this] src_notin_layer_Suc[of "toLowerCase beginWord" ?N k] assms
  show ?thesis by auto
qed

lemma layer_words:
  assumes "w \<in> layer (nbrs wl (patternBuckets ws wl beginWord)) (toLowerCase beginWord) k"
  shows "w \<in> insert (toLowerCase beginWord) (set ws)"
  using assms layer_in_dict by (cases k) auto

lemma no_runErr:
  assumes "set ws \<inter> set objectPrototypeProps = {}"
  shows "\<not> runErr (nbrs wl (patternBuckets ws wl beginWord)) (toLowerCase beginWord) tgt"
proof
  assume "runErr (nbrs wl (patternBuckets ws wl beginWord)) (toLowerCase beginWord) tgt"
  then obtain K w where
    "w \<in> layer (nbrs wl (patternBuckets ws wl beginWord)) (toLowerCase beginWord) (Suc K)"
    "w \<in> set objectPrototypeProps"
    unfolding runErr_def by blast
  with layer_in_dict assms show False by blast
qed

lemma ladder_steps:
  "successively oneLetterApart P \<Longrightarrow> P \<noteq> [] \<Longrightarrow> length (hd P) = wl \<Longrightarrow> set (tl P) \<subseteq> set ws \<Longrightarrow>
   successively (\<lambda>a b. b \<in> nbrs wl (patternBuckets ws wl beginWord) a) P"
proof (induction P)
  case Nil
  then show ?case by simp
next
  case (Cons a P)
  show ?case
  proof (cases P)
    case Nil
    then show ?thesis by simp
  next
    case (Cons b P')
    with Cons.prems have ab: "oneLetterApart a b" and su: "successively oneLetterApart P"
      and b: "b \<in> set ws" and a: "length a = wl" and tl: "set (tl P) \<subseteq> set ws"
      by auto
    from ab a have "length (hd P) = wl" using Cons by (simp add: oneLetterApart_def)
    from Cons.IH[OF su _ this tl] Cons
    have "successively (\<lambda>a b. b \<in> nbrs wl (patternBuckets ws wl beginWord) a) P" by simp
    with oneLetterApart_nbrs[OF ab a b, of beginWord] Cons show ?thesis by simp
  qed
qed

lemma ladder_walk:
  assumes l: "isLadder ws (toLowerCase beginWord) tgt P" and t: "tgt \<in> set ws"
    and wl: "length beginWord = wl"
  shows "walkFromTo (nbrs wl (patternBuckets ws wl beginWord)) (toLowerCase beginWord) tgt P"
proof -
  from l have P: "P \<noteq> []" "hd P = toLowerCase beginWord" "last P = tgt"
    "successively oneLetterApart P" "set (butlast (tl P)) \<subseteq> set ws"
    by (simp_all add: isLadder_def)
  have "set (tl P) \<subseteq> set ws"
  proof (cases "tl P = []")
    case True
    then show ?thesis by simp
  next
    case False
    then have "set (tl P) = set (butlast (tl P) @ [last (tl P)])" by simp
    also have "\<dots> = set (butlast (tl P)) \<union> {last (tl P)}" by (simp only: set_append list.set)
    finally have e: "set (tl P) = set (butlast (tl P)) \<union> {last (tl P)}" .
    from False P(1) have "last (tl P) = last P" by (simp add: last_tl)
    with e P(3,5) t show ?thesis by simp
  qed
  from ladder_steps[OF P(4) P(1) _ this, of wl beginWord] P(2) wl
  have "successively (\<lambda>a b. b \<in> nbrs wl (patternBuckets ws wl beginWord) a) P" by simp
  with P show ?thesis by (simp add: walkFromTo_def)
qed

lemma walk_ladder:
  assumes star: "\<forall>w \<in> insert (toLowerCase beginWord) (set ws). CHR ''*'' \<notin> set w"
  shows "layeredWalk (nbrs wl (patternBuckets ws wl beginWord)) (toLowerCase beginWord) Q \<Longrightarrow>
         successively oneLetterApart Q \<and> set (tl Q) \<subseteq> set ws"
proof (induction Q rule: rev_induct)
  case Nil
  then show ?case by simp
next
  case (snoc w Q)
  let ?N = "nbrs wl (patternBuckets ws wl beginWord)" and ?s = "toLowerCase beginWord"
  from snoc.prems have lw: "layeredWalk ?N ?s Q" and wl: "w \<in> layer ?N ?s (length Q)"
    and adj: "Q \<noteq> [] \<longrightarrow> w \<in> ?N (last Q)"
    unfolding layeredWalk_snoc by simp_all
  from snoc.IH[OF lw] have ih: "successively oneLetterApart Q" "set (tl Q) \<subseteq> set ws" by simp_all
  show ?case
  proof (cases "Q = []")
    case True
    then show ?thesis by simp
  next
    case False
    with adj have a: "w \<in> ?N (last Q)" by simp
    from False lw have "last Q \<in> layer ?N ?s (length Q - 1)"
      unfolding layeredWalk_def by (simp add: last_conv_nth)
    from layer_words[OF this] star have "CHR ''*'' \<notin> set (last Q)" by blast
    from nbrs_oneLetterApart[OF a this] have o: "oneLetterApart (last Q) w" by simp
    from False obtain k where "length Q = Suc k" by (cases Q) auto
    with wl layer_in_dict[of w wl ws beginWord k] have "w \<in> set ws" by simp
    with ih o False show ?thesis by (simp add: successively_append_iff)
  qed
qed

lemma layer_ladder:
  assumes star: "\<forall>w \<in> insert (toLowerCase beginWord) (set ws). CHR ''*'' \<notin> set w"
    and t: "tgt \<in> layer (nbrs wl (patternBuckets ws wl beginWord)) (toLowerCase beginWord) K"
  shows "\<exists>Q. isLadder ws (toLowerCase beginWord) tgt Q \<and> length Q = Suc K"
proof -
  from layer_walk[OF t] obtain Q where
    Q: "layeredWalk (nbrs wl (patternBuckets ws wl beginWord)) (toLowerCase beginWord) Q"
    "length Q = Suc K" "last Q = tgt" by blast
  then have ne: "Q \<noteq> []" by auto
  from walk_ladder[OF star Q(1)] have "successively oneLetterApart Q" "set (tl Q) \<subseteq> set ws"
    by simp_all
  moreover have "set (butlast (tl Q)) \<subseteq> set (tl Q)" by (meson in_set_butlastD subsetI)
  ultimately have "isLadder ws (toLowerCase beginWord) tgt Q"
    using ne Q(3) layeredWalk_hd[OF Q(1) ne] by (auto simp: isLadder_def)
  with Q(2) show ?thesis by blast
qed

lemma run_reaches:
  assumes ok: "runOK N s tgt fs" and ne: "fs \<noteq> []" and t: "tgt \<in> layer N s K" and K: "0 < K"
  shows "length fs = K \<and> found (last fs)"
proof -
  from runOK_last[OF ok ne] ne have fd: "found (last fs) = (tgt \<in> layer N s (length fs))"
    and nx: "set (nextFrontier (last fs)) = layer N s (length fs)"
    by (simp_all add: frameOK_def)
  have a: "\<not> K < length fs"
  proof
    assume lt: "K < length fs"
    from K obtain i where i: "K = Suc i" by (cases K) auto
    from runOK_tgt_not_earlier[OF ok lt[unfolded i]] t i show False by simp
  qed
  have b: "\<not> length fs < K"
  proof
    assume lt: "length fs < K"
    from ok ne have "found (last fs) \<or> nextFrontier (last fs) = []" by (simp add: runOK_def)
    then show False
    proof
      assume "found (last fs)"
      with fd layer_unique[OF t, of "length fs"] lt show False by simp
    next
      assume "nextFrontier (last fs) = []"
      with nx have "layer N s (length fs) = {}" by simp
      from layer_empty_up[OF this, of K] lt t show False by simp
    qed
  qed
  from a b have "length fs = K" by simp
  with fd t show ?thesis by simp
qed

lemma ladder_lengths:
  "successively oneLetterApart P \<Longrightarrow> x \<in> set P \<Longrightarrow> length x = length (hd P)"
proof (induction P)
  case Nil
  then show ?case by simp
next
  case (Cons a P)
  show ?case
  proof (cases "x = a")
    case True
    then show ?thesis by simp
  next
    case False
    with Cons.prems have x: "x \<in> set P" and ne: "P \<noteq> []" by auto
    with Cons.prems(1) have "oneLetterApart a (hd P)" "successively oneLetterApart P"
      by (auto simp: successively_Cons)
    with Cons.IH[OF _ x] show ?thesis by (simp add: oneLetterApart_def)
  qed
qed

lemma ladderPaths_complete:
  assumes star: "\<forall>w \<in> insert (toLowerCase beginWord) (set ws). CHR ''*'' \<notin> set w"
    and noproto: "set ws \<inter> set objectPrototypeProps = {}"
    and tin: "toLowerCase endWord \<in> set ws"
    and ne: "toLowerCase beginWord \<noteq> toLowerCase endWord"
    and sh: "shortestLadder ws (toLowerCase beginWord) (toLowerCase endWord) P"
  shows "\<exists>fs ps. ladderFrames beginWord endWord ws = Inr fs \<and>
                 ladderPaths cmp beginWord endWord ws = Inr ps \<and> P \<in> set ps"
proof -
  let ?s = "toLowerCase beginWord" and ?t = "toLowerCase endWord"
  let ?wl = "wordLen beginWord"
  let ?b = "patternBuckets ws ?wl beginWord"
  let ?N = "nbrs ?wl ?b"
  from sh have lad: "isLadder ws ?s ?t P"
    and mn: "\<forall>Q. isLadder ws ?s ?t Q \<longrightarrow> length P \<le> length Q"
    by (simp_all add: shortestLadder_def)
  from lad have P: "P \<noteq> []" "hd P = ?s" "last P = ?t" "successively oneLetterApart P"
    by (simp_all add: isLadder_def)
  from ladder_lengths[OF P(4), of ?t] P(1,2,3) have len: "length ?s = length ?t"
    by (metis last_in_set)
  have walk: "walkFromTo ?N ?s ?t P"
    by (rule ladder_walk[OF lad tin]) (simp add: wordLen_def)
  from seen_layer[OF walk_reaches[OF walk]] obtain K where K: "?t \<in> layer ?N ?s K" by blast
  from K ne have Kpos: "0 < K" by (cases K) auto
  from layer_ladder[OF star K] obtain Q where "isLadder ws ?s ?t Q" "length Q = Suc K" by blast
  with mn have "length P \<le> Suc K" by auto
  with walk_length_ge[OF walk K] have lenP: "length P = Suc K" by simp
  from shortest_walk_layered[OF walk K lenP] lenP P(3) have Pin: "P \<in> shortestWalks ?N ?s ?t K"
    by (simp add: shortestWalks_def)
  from frames_run[OF len, of ?wl ?b] no_runErr[OF noproto, of ?wl beginWord ?t]
  obtain fs where fs: "frames beginWord endWord ?wl ?b = Inr fs" "runOK ?N ?s ?t fs" "fs \<noteq> []"
    by (cases "frames beginWord endWord ?wl ?b") auto
  from run_reaches[OF fs(2,3) K Kpos] have lf: "length fs = K" by simp
  from runOK_finalParents[OF fs(2,3)] lf have pk: "parentsOK ?N ?s K (finalParents fs)" by simp
  from allPaths_found[OF pk K Kpos, of cmp] obtain res where
    res: "allPaths cmp (finalParents fs) beginWord endWord
            = Inr (stableSort (\<lambda>a b. cmp (joinArrow a) (joinArrow b)) res)"
    "set res = shortestWalks ?N ?s ?t K" by blast
  have "ladderFrames beginWord endWord ws = Inr fs"
    using fs(1) by (simp add: ladderFrames_def)
  moreover from this res(1) have "ladderPaths cmp beginWord endWord ws
            = Inr (stableSort (\<lambda>a b. cmp (joinArrow a) (joinArrow b)) res)"
    by (simp add: ladderPaths_def)
  moreover from Pin res(2) have "P \<in> set (stableSort (\<lambda>a b. cmp (joinArrow a) (joinArrow b)) res)"
    by simp
  ultimately show ?thesis by blast
qed

section \<open>The word array\<close>

lemma distinct_newSet [simp]: "distinct (newSet xs)"
  by (simp add: newSet_def)

lemma distinct_words: "distinct (words wordListText endWord)"
  by (simp add: words_def Let_def)

lemma endWord_in_words: "toLowerCase endWord \<in> set (words wordListText endWord)"
  by (simp add: words_def Let_def)

section \<open>Runs that find the end word\<close>

lemma ladderFrames_run:
  assumes "ladderFrames beginWord endWord ws = Inr fs" and "fs \<noteq> []"
  shows "runOK (nbrs (wordLen beginWord) (patternBuckets ws (wordLen beginWord) beginWord))
           (toLowerCase beginWord) (toLowerCase endWord) fs \<and>
         length (toLowerCase beginWord) = length (toLowerCase endWord)"
proof -
  let ?wl = "wordLen beginWord"
  let ?b = "patternBuckets ws ?wl beginWord"
  from assms have f: "frames beginWord endWord ?wl ?b = Inr fs" by (simp add: ladderFrames_def)
  have len: "length (toLowerCase beginWord) = length (toLowerCase endWord)"
  proof (rule ccontr)
    assume "length (toLowerCase beginWord) \<noteq> length (toLowerCase endWord)"
    from frames_mismatch[OF this, of ?wl ?b] f assms(2) show False by simp
  qed
  from frames_run[OF len, of ?wl ?b] f len show ?thesis by simp
qed

lemma found_layer:
  assumes "ladderFrames beginWord endWord ws = Inr fs" and "fs \<noteq> []" and "found (last fs)"
  shows "toLowerCase endWord \<in> layer (nbrs (wordLen beginWord) (patternBuckets ws (wordLen beginWord) beginWord))
           (toLowerCase beginWord) (length fs)"
proof -
  from ladderFrames_run[OF assms(1,2)] have "runOK (nbrs (wordLen beginWord) (patternBuckets ws (wordLen beginWord) beginWord))
           (toLowerCase beginWord) (toLowerCase endWord) fs" by simp
  from runOK_last[OF this assms(2)] assms(2,3) show ?thesis by (simp add: frameOK_def)
qed

lemma found_ladder_length:
  assumes fr: "ladderFrames beginWord endWord ws = Inr fs" and ne: "fs \<noteq> []"
    and fd: "found (last fs)" and tin: "toLowerCase endWord \<in> set ws"
    and lad: "isLadder ws (toLowerCase beginWord) (toLowerCase endWord) Q"
  shows "Suc (length fs) \<le> length Q"
proof -
  have "walkFromTo (nbrs (wordLen beginWord) (patternBuckets ws (wordLen beginWord) beginWord))
          (toLowerCase beginWord) (toLowerCase endWord) Q"
    by (rule ladder_walk[OF lad tin]) (simp add: wordLen_def)
  from walk_length_ge[OF this found_layer[OF fr ne fd]] show ?thesis .
qed

lemma length_stableSort [simp]: "length (stableSort c xs) = length xs"
proof -
  have "length (fold (insertSorted c) xs acc) = length xs + length acc" for acc
    by (induction xs arbitrary: acc) auto
  then show ?thesis by (simp add: stableSort_def)
qed

lemma frames_cases:
  obtains (mismatch) "length (toLowerCase beginWord) \<noteq> length (toLowerCase endWord)"
      "frames beginWord endWord wl b = Inr []"
    | (error) "length (toLowerCase beginWord) = length (toLowerCase endWord)"
      "frames beginWord endWord wl b = Inl TypeError"
      "runErr (nbrs wl b) (toLowerCase beginWord) (toLowerCase endWord)"
    | (run) fs where "length (toLowerCase beginWord) = length (toLowerCase endWord)"
      "frames beginWord endWord wl b = Inr fs" "fs \<noteq> []"
      "runOK (nbrs wl b) (toLowerCase beginWord) (toLowerCase endWord) fs"
proof (cases "length (toLowerCase beginWord) = length (toLowerCase endWord)")
  case False
  from frames_mismatch[OF this] False mismatch show ?thesis by blast
next
  case True
  show ?thesis
  proof (cases "frames beginWord endWord wl b")
    case (Inl e)
    moreover have "e = TypeError" by (cases e) simp
    ultimately show ?thesis using frames_run[OF True, of wl b] True error by simp
  next
    case (Inr fs)
    with frames_run[OF True, of wl b] True run show ?thesis by simp
  qed
qed

lemma runOK_frame:
  "runOK N s tgt fs \<Longrightarrow> i < length fs \<Longrightarrow> frameOK N s tgt i (fs ! i)"
  by (simp add: runOK_def)

lemma runOK_parents_layered:
  assumes ok: "runOK (nbrs wl b) s tgt fs" and j: "j < length fs"
    and m: "map_of (parentsSnapshot (fs ! j)) w = Some ps"
  shows "\<exists>i\<le>j. w \<in> set (nextFrontier (fs ! i)) \<and>
               set ps = {p \<in> set (frontier (fs ! i)). w \<in> set (getNeighbors wl b p)} \<and>
               (\<forall>i'<length fs. i' \<noteq> i \<longrightarrow> set ps \<inter> set (frontier (fs ! i')) = {})"
proof -
  let ?N = "nbrs wl b"
  from runOK_frame[OF ok j] have "parentsOK ?N s (Suc j) (parentsSnapshot (fs ! j))"
    by (simp add: frameOK_def)
  from parentsOK_lookup[OF this m] obtain i where i: "i < Suc j" "w \<in> layer ?N s (Suc i)"
    "set ps = {p \<in> layer ?N s i. w \<in> ?N p}" by blast
  from i(1) j have il: "i < length fs" by simp
  from runOK_frame[OF ok il] have fi: "set (frontier (fs ! i)) = layer ?N s i"
    "set (nextFrontier (fs ! i)) = layer ?N s (Suc i)" by (simp_all add: frameOK_def)
  have "\<forall>i'<length fs. i' \<noteq> i \<longrightarrow> set ps \<inter> set (frontier (fs ! i')) = {}"
  proof (intro allI impI)
    fix i' assume i': "i' < length fs" "i' \<noteq> i"
    from runOK_frame[OF ok i'(1)] have "set (frontier (fs ! i')) = layer ?N s i'"
      by (simp add: frameOK_def)
    with i(3) i'(2) layer_unique[of _ ?N s i i'] show "set ps \<inter> set (frontier (fs ! i')) = {}"
      by auto
  qed
  moreover have "set ps = {p \<in> set (frontier (fs ! i)). w \<in> set (getNeighbors wl b p)}"
    using i(3) fi(1) by (simp add: nbrs_def)
  ultimately show ?thesis using i(1,2) fi(2) by (intro exI[of _ i]) simp
qed

lemma runOK_next_deferred:
  assumes ok: "runOK (nbrs wl b) s tgt fs" and i: "i < length fs"
  shows "level (fs ! i) = i \<and>
         set (nextFrontier (fs ! i)) =
           (\<Union>p \<in> set (frontier (fs ! i)). set (getNeighbors wl b p)) -
           set (if i = 0 then [s] else visitedSnapshot (fs ! (i - 1)))"
proof -
  let ?N = "nbrs wl b"
  from runOK_frame[OF ok i] have fi: "level (fs ! i) = i" "set (frontier (fs ! i)) = layer ?N s i"
    "set (nextFrontier (fs ! i)) = layer ?N s (Suc i)" by (simp_all add: frameOK_def)
  have "set (if i = 0 then [s] else visitedSnapshot (fs ! (i - 1))) = seen ?N s i"
  proof (cases i)
    case 0
    then show ?thesis by simp
  next
    case (Suc k)
    with i have "k < length fs" by simp
    from runOK_frame[OF ok this] Suc show ?thesis by (simp add: frameOK_def)
  qed
  with fi show ?thesis by (simp add: layer_Suc nbrs_def)
qed

lemma runOK_src_not_key:
  assumes ok: "runOK N s tgt fs" and f: "f \<in> set fs"
  shows "s \<notin> fst ` set (parentsSnapshot f)"
proof -
  from f obtain i where i: "i < length fs" "fs ! i = f" by (auto simp: in_set_conv_nth)
  from runOK_frame[OF ok i(1)] i(2) have "parentsOK N s (Suc i) (parentsSnapshot f)"
    by (simp add: frameOK_def)
  then have "map_of (parentsSnapshot f) s = None" by (simp add: parentsOK_def)
  then show ?thesis by (simp add: map_of_eq_None_iff)
qed

lemma shortestWalks_shape:
  assumes "P \<in> shortestWalks N s tgt K"
  shows "P \<noteq> [] \<and> hd P = s \<and> s \<notin> set (tl P) \<and> last P = tgt \<and> length P = Suc K"
proof -
  from assms have P: "layeredWalk N s P" "length P = Suc K" "last P = tgt"
    by (simp_all add: shortestWalks_def)
  then have ne: "P \<noteq> []" by auto
  have "s \<notin> set (tl P)"
  proof
    assume "s \<in> set (tl P)"
    then obtain i where i: "i < length (tl P)" "tl P ! i = s" by (auto simp: in_set_conv_nth)
    with ne have "Suc i < length P" "P ! Suc i = s" by (simp_all add: nth_tl)
    with P(1) have "s \<in> layer N s (Suc i)" unfolding layeredWalk_def by metis
    with src_notin_layer_Suc[of s N i] show False by simp
  qed
  with P ne layeredWalk_hd[OF P(1) ne] show ?thesis by simp
qed

text \<open>The three outcomes of the path reconstruction on the frames of a run.\<close>

lemma allPaths_of_run [consumes 1, case_names walks none]:
  assumes fr: "frames beginWord endWord wl b = Inr fs"
  obtains (walks) res where "fs \<noteq> []" "found (last fs)"
      "allPaths cmp (finalParents fs) beginWord endWord
         = Inr (stableSort (\<lambda>a b. cmp (joinArrow a) (joinArrow b)) res)"
      "distinct res"
      "set res = shortestWalks (nbrs wl b) (toLowerCase beginWord) (toLowerCase endWord) (length fs)"
      "toLowerCase endWord \<in> layer (nbrs wl b) (toLowerCase beginWord) (length fs)"
    | (none) "fs \<noteq> [] \<longrightarrow> \<not> found (last fs)"
      "map_of (finalParents fs) (toLowerCase endWord) = None"
      "allPaths cmp (finalParents fs) beginWord endWord =
           (if toLowerCase endWord \<notin> set objectPrototypeProps then Inr []
            else if toLowerCase endWord = toLowerCase beginWord then Inr [[toLowerCase endWord]]
            else Inl TypeError)"
proof (cases beginWord endWord wl b rule: frames_cases)
  case mismatch
  with fr have "fs = []" by simp
  then have "map_of (finalParents fs) (toLowerCase endWord) = None" by (simp add: finalParents_def)
  from none[OF _ this allPaths_notfound[OF this]] \<open>fs = []\<close> show ?thesis by simp
next
  case error
  with fr show ?thesis by simp
next
  case (run fs')
  with fr have ne: "fs \<noteq> []"
    and ok: "runOK (nbrs wl b) (toLowerCase beginWord) (toLowerCase endWord) fs" by simp_all
  let ?N = "nbrs wl b" and ?s = "toLowerCase beginWord" and ?t = "toLowerCase endWord"
  note pk = runOK_finalParents[OF ok ne]
  show ?thesis
  proof (cases "found (last fs)")
    case True
    from runOK_last[OF ok ne] ne True have t: "?t \<in> layer ?N ?s (length fs)"
      by (simp add: frameOK_def)
    from ne have K: "0 < length fs" by simp
    from allPaths_found[OF pk t K, of cmp] obtain res where
      "allPaths cmp (finalParents fs) beginWord endWord
         = Inr (stableSort (\<lambda>a b. cmp (joinArrow a) (joinArrow b)) res)"
      "distinct res" "set res = shortestWalks ?N ?s ?t (length fs)" by blast
    from walks[OF ne True this t] show ?thesis .
  next
    case False
    with runOK_tgt_seen[OF ok ne] have "?t \<notin> seen ?N ?s (length fs) - {?s}" by simp
    with pk have m: "map_of (finalParents fs) ?t = None" by (simp add: parentsOK_def)
    from none[OF _ m allPaths_notfound[OF m]] False show ?thesis by simp
  qed
qed

lemma expandLevel_no_neighbors:
  "getNeighbors wl b s = [] \<Longrightarrow> expandLevel wl b visited [s] parents = Inr (parents, [])"
  by (simp add: expandLevel_def)

lemma frames_no_neighbors:
  assumes len: "length (toLowerCase beginWord) = length (toLowerCase endWord)"
    and nn: "getNeighbors wl b (toLowerCase beginWord) = []"
  shows "frames beginWord endWord wl b =
           Inr [\<lparr>level = 0, frontier = [toLowerCase beginWord], nextFrontier = [],
                  visitedSnapshot = [toLowerCase beginWord], parentsSnapshot = [],
                  found = False\<rparr>]"
proof -
  let ?s = "toLowerCase beginWord" and ?t = "toLowerCase endWord"
  have ne: "[?s] \<noteq> []" by simp
  have nt: "?t \<notin> set []" by simp
  from bfsLoop_continue[OF ne expandLevel_no_neighbors[OF nn] nt, of "setAdd [] ?s" "[]" 0 "[]"]
  show ?thesis using len by (simp add: frames_def Let_def bfsLoop_empty setAdd_def)
qed

lemma runOK_last_found_iff:
  assumes ok: "runOK N s tgt fs" and ne: "fs \<noteq> []"
  shows "\<not> found (last fs) \<longleftrightarrow> nextFrontier (last fs) = []"
proof
  assume "\<not> found (last fs)"
  with ok ne show "nextFrontier (last fs) = []" by (simp add: runOK_def)
next
  assume e: "nextFrontier (last fs) = []"
  from runOK_last[OF ok ne] ne have "found (last fs) = (tgt \<in> set (nextFrontier (last fs)))"
    by (simp add: frameOK_def)
  with e show "\<not> found (last fs)" by simp
qed

lemma runOK_not_found_before:
  assumes ok: "runOK N s tgt fs" and ne: "fs \<noteq> []" and nf: "\<not> found (last fs)"
    and f: "f \<in> set fs"
  shows "\<not> found f"
proof -
  from f obtain i where i: "i < length fs" "fs ! i = f" by (auto simp: in_set_conv_nth)
  show ?thesis
  proof (cases "Suc i < length fs")
    case True
    with ok i(2) show ?thesis by (auto simp: runOK_def)
  next
    case False
    with i(1) have "i = length fs - 1" by simp
    with i(2) ne nf show ?thesis by (simp add: last_conv_nth)
  qed
qed

lemma seen_words:
  assumes "w \<in> seen (nbrs wl (patternBuckets ws wl beginWord)) (toLowerCase beginWord) k"
  shows "w \<in> insert (toLowerCase beginWord) (set ws)"
proof -
  from seen_layer[OF assms] obtain j where
    "w \<in> layer (nbrs wl (patternBuckets ws wl beginWord)) (toLowerCase beginWord) j" by blast
  from layer_words[OF this] show ?thesis .
qed

lemma card_seen:
  assumes fin: "\<And>k. finite (seen N s k)"
  shows "(\<forall>i\<le>k. layer N s i \<noteq> {}) \<Longrightarrow> Suc k \<le> card (seen N s k)"
proof (induction k)
  case 0
  then show ?case by simp
next
  case (Suc k)
  then have ih: "Suc k \<le> card (seen N s k)" by simp
  from Suc.prems obtain w where w: "w \<in> layer N s (Suc k)" by auto
  then have "w \<notin> seen N s k" by (rule layer_Suc_disjoint_seen)
  with w have "seen N s k \<subset> seen N s (Suc k)" by (auto simp: seen_Suc)
  from psubset_card_mono[OF fin this] ih show ?case by simp
qed

lemma run_length_bound:
  assumes ok: "runOK (nbrs wl (patternBuckets ws wl beginWord)) (toLowerCase beginWord) tgt fs"
  shows "length fs \<le> Suc (length ws)"
proof (cases "fs = []")
  case True
  then show ?thesis by simp
next
  case False
  let ?N = "nbrs wl (patternBuckets ws wl beginWord)" and ?s = "toLowerCase beginWord"
  have sub: "seen ?N ?s k \<subseteq> insert ?s (set ws)" for k
    using seen_words by blast
  then have fin: "finite (seen ?N ?s k)" for k
    by (rule finite_subset) simp
  have "\<forall>i\<le>length fs - 1. layer ?N ?s i \<noteq> {}"
  proof (intro allI impI)
    fix i assume "i \<le> length fs - 1"
    with False have "i < length fs" by (cases fs) auto
    from runOK_frame[OF ok this] show "layer ?N ?s i \<noteq> {}" by (auto simp: frameOK_def)
  qed
  from card_seen[OF fin this] False have "length fs \<le> card (seen ?N ?s (length fs - 1))"
    by (cases fs) auto
  also have "\<dots> \<le> card (insert ?s (set ws))"
    by (rule card_mono[OF _ sub]) simp
  also have "\<dots> \<le> Suc (card (set ws))" by (simp add: card_insert_if)
  also have "\<dots> \<le> Suc (length ws)" by (simp add: card_length)
  finally show ?thesis .
qed

lemma runOK_visited_grows:
  assumes ok: "runOK N s tgt fs" and i: "i < length fs"
  shows "found (fs ! i) \<or> nextFrontier (fs ! i) = [] \<or>
         set (if i = 0 then [s] else visitedSnapshot (fs ! (i - 1))) \<subset> set (visitedSnapshot (fs ! i))"
proof (cases "nextFrontier (fs ! i) = []")
  case True
  then show ?thesis by simp
next
  case False
  from runOK_frame[OF ok i] have fi: "set (nextFrontier (fs ! i)) = layer N s (Suc i)"
    "set (visitedSnapshot (fs ! i)) = seen N s (Suc i)" by (simp_all add: frameOK_def)
  have b: "set (if i = 0 then [s] else visitedSnapshot (fs ! (i - 1))) = seen N s i"
  proof (cases i)
    case 0
    then show ?thesis by simp
  next
    case (Suc k)
    with i have "k < length fs" by simp
    from runOK_frame[OF ok this] Suc show ?thesis by (simp add: frameOK_def)
  qed
  from False fi(1) obtain w where w: "w \<in> layer N s (Suc i)" by (cases "nextFrontier (fs ! i)") auto
  then have "w \<notin> seen N s i" by (rule layer_Suc_disjoint_seen)
  with w have "seen N s i \<subset> seen N s (Suc i)" by (auto simp: seen_Suc)
  with b fi(2) show ?thesis by simp
qed

lemma runOK_first_found:
  assumes ok: "runOK N s tgt fs" and ne: "fs \<noteq> []" and fd: "found (last fs)"
  shows "found (fs ! (length fs - 1)) \<and> (\<forall>i<length fs - 1. \<not> found (fs ! i))"
proof -
  from ne fd have "found (fs ! (length fs - 1))" by (simp add: last_conv_nth)
  moreover have "\<forall>i<length fs - 1. \<not> found (fs ! i)"
    using ok by (auto simp: runOK_def)
  ultimately show ?thesis by simp
qed

text \<open>
  Every returned path has one word more than there are frames, the last frame being the
  first with the found flag, unless the end word equals the begin word and names a property
  of \<^verbatim>\<open>Object.prototype\<close>.
\<close>

lemma returned_path_length:
  assumes fr: "frames beginWord endWord wl b = Inr fs"
    and ap: "allPaths cmp (finalParents fs) beginWord endWord = Inr ps" and p: "p \<in> set ps"
  shows "(fs \<noteq> [] \<and> found (fs ! (length fs - 1)) \<and> (\<forall>i<length fs - 1. \<not> found (fs ! i)) \<and>
          length p = (length fs - 1) + 2) \<or>
         (toLowerCase endWord \<in> set objectPrototypeProps \<and>
          toLowerCase endWord = toLowerCase beginWord \<and> p = [toLowerCase endWord])"
  using fr
proof (cases rule: allPaths_of_run[where cmp = cmp])
  case (walks res)
  from walks(3) ap have "ps = stableSort (\<lambda>a b. cmp (joinArrow a) (joinArrow b)) res" by simp
  with p walks(5) have "p \<in> shortestWalks (nbrs wl b) (toLowerCase beginWord) (toLowerCase endWord) (length fs)"
    by simp
  from shortestWalks_shape[OF this] have "length p = Suc (length fs)" by simp
  moreover from fr walks(1) have "runOK (nbrs wl b) (toLowerCase beginWord) (toLowerCase endWord) fs"
    by (cases beginWord endWord wl b rule: frames_cases) simp_all
  from runOK_first_found[OF this walks(1,2)]
  have "found (fs ! (length fs - 1)) \<and> (\<forall>i<length fs - 1. \<not> found (fs ! i))" .
  ultimately show ?thesis using walks(1) by (cases fs) auto
next
  case none
  with ap p show ?thesis by (auto split: if_splits)
qed

lemma same_word_run:
  assumes eq: "toLowerCase beginWord = toLowerCase endWord"
    and fr: "frames beginWord endWord wl b = Inr fs"
  shows "(\<forall>f \<in> set fs. \<not> found f) \<and>
         allPaths cmp (finalParents fs) beginWord endWord =
           (if toLowerCase endWord \<in> set objectPrototypeProps then Inr [[toLowerCase endWord]]
            else Inr [])"
proof -
  let ?N = "nbrs wl b" and ?s = "toLowerCase beginWord"
  have nf: "\<forall>f \<in> set fs. \<not> found f"
  proof (cases beginWord endWord wl b rule: frames_cases)
    case mismatch
    with fr show ?thesis by simp
  next
    case error
    with fr show ?thesis by simp
  next
    case (run fs')
    with fr have ok: "runOK ?N ?s (toLowerCase endWord) fs" by simp
    show ?thesis
    proof
      fix f assume "f \<in> set fs"
      then obtain i where i: "i < length fs" "fs ! i = f" by (auto simp: in_set_conv_nth)
      from runOK_frame[OF ok i(1)] i(2) eq have "found f = (?s \<in> layer ?N ?s (Suc i))"
        by (simp add: frameOK_def)
      with src_notin_layer_Suc[of ?s ?N i] show "\<not> found f" by simp
    qed
  qed
  from fr have "allPaths cmp (finalParents fs) beginWord endWord =
           (if toLowerCase endWord \<in> set objectPrototypeProps then Inr [[toLowerCase endWord]]
            else Inr [])"
  proof (cases rule: allPaths_of_run[where cmp = cmp])
    case (walks res)
    with nf show ?thesis by simp
  next
    case none
    with eq show ?thesis by simp
  qed
  with nf show ?thesis by simp
qed

lemma count_list_replicate_eq: "count_list (replicate n v) w = (if v = w then n else 0)"
  by (induction n) auto

lemma count_list_concat_single:
  assumes "\<And>v. set (f v) \<subseteq> {v}"
  shows "distinct ws \<Longrightarrow> count_list (concat (map f ws)) w = (if w \<in> set ws then count_list (f w) w else 0)"
proof (induction ws)
  case Nil
  then show ?case by simp
next
  case (Cons v ws)
  have other: "count_list (f v) w = 0" if "v \<noteq> w"
  proof -
    from assms[of v] that have "w \<notin> set (f v)" by auto
    then show ?thesis by (simp add: count_list_0_iff)
  qed
  show ?case
  proof (cases "v = w")
    case True
    with Cons.prems have "w \<notin> set ws" by simp
    with Cons True show ?thesis by simp
  next
    case False
    with Cons other[OF False] show ?thesis by simp
  qed
qed

lemma patternKey_inj:
  assumes "CHR ''*'' \<notin> set w"
  shows "inj_on (patternKey w) {0..<length w}"
proof (rule inj_onI)
  fix i j assume "i \<in> {0..<length w}" "j \<in> {0..<length w}" "patternKey w i = patternKey w j"
  with patternKey_position[of w i w j] assms show "i = j" by simp
qed

lemma hits_starfree:
  assumes star: "CHR ''*'' \<notin> set w" and i: "i < length w"
  shows "hits (length w) w (patternKey w i) = 1"
proof -
  have "{j. patternKey w j = patternKey w i} \<inter> set [0..<length w] = {i}"
    using patternKey_inj[OF star] i by (auto simp: inj_on_def)
  then show ?thesis by (simp add: hits_def distinct_length_filter)
qed

lemma count_in_bucket:
  assumes d: "distinct ws" and w: "w \<in> set ws" and len: "length w = wl"
    and lb: "length beginWord = wl"
  shows "count_list (bucketOf (patternBuckets ws wl beginWord) k) w =
           hits wl w k + (if w = toLowerCase beginWord then hits wl w k else 0)"
proof -
  let ?f = "\<lambda>v. if length v \<noteq> wl then [] else replicate (hits wl v k) v"
  have "set (?f v) \<subseteq> {v}" for v by auto
  from count_list_concat_single[of ?f, OF this d, of w] w len
  have "count_list (concat (map ?f ws)) w = hits wl w k"
    by (simp add: count_list_replicate_eq)
  then show ?thesis
    using lb by (auto simp: bucketOf_patternBuckets count_list_replicate_eq)
qed

lemma buckets_of_word:
  assumes w: "w \<in> set ws" and len: "length w = wl"
  shows "{k. w \<in> set (bucketOf (patternBuckets ws wl beginWord) k)} = patternKey w ` {0..<wl}"
  using assms by (auto simp: in_bucket_iff)

section \<open>Sorting the paths\<close>

lemma sorted_insertSorted:
  fixes key :: "'a \<Rightarrow> 'b::linorder"
  assumes lt: "\<And>a b. a \<in> A \<Longrightarrow> b \<in> A \<Longrightarrow> (c a b < 0) = (key a < key b)" and x: "x \<in> A"
  shows "set xs \<subseteq> A \<Longrightarrow> sorted (map key xs) \<Longrightarrow> sorted (map key (insertSorted c x xs))"
proof (induction xs)
  case Nil
  then show ?case by simp
next
  case (Cons y ys)
  from Cons.prems have y: "y \<in> A" by simp
  show ?case
  proof (cases "c x y < 0")
    case True
    with lt[OF x y] have "key x < key y" by simp
    with Cons.prems show ?thesis using True by (auto simp: less_imp_le)
  next
    case False
    with lt[OF x y] have "key y \<le> key x" by (simp add: not_less)
    with Cons show ?thesis using False by auto
  qed
qed

lemma sorted_stableSort:
  fixes key :: "'a \<Rightarrow> 'b::linorder"
  assumes lt: "\<And>a b. a \<in> A \<Longrightarrow> b \<in> A \<Longrightarrow> (c a b < 0) = (key a < key b)" and sub: "set xs \<subseteq> A"
  shows "sorted (map key (stableSort c xs))"
proof -
  have "set xs \<subseteq> A \<Longrightarrow> set acc \<subseteq> A \<Longrightarrow> sorted (map key acc) \<Longrightarrow>
        sorted (map key (fold (insertSorted c) xs acc))" for acc
  proof (induction xs arbitrary: acc)
    case Nil
    then show ?case by simp
  next
    case (Cons x xs)
    from Cons.prems have x: "x \<in> A" by simp
    from Cons.prems have "set (insertSorted c x acc) \<subseteq> A" by simp
    moreover from sorted_insertSorted[of A c key, OF lt x Cons.prems(2,3)]
    have "sorted (map key (insertSorted c x acc))" .
    ultimately show ?case using Cons.IH[of "insertSorted c x acc"] Cons.prems(1) by simp
  qed
  with sub show ?thesis by (simp add: stableSort_def)
qed

lemma stableSort_unique:
  fixes key :: "'a \<Rightarrow> 'b::linorder"
  assumes lt: "\<And>a b. a \<in> set xs \<Longrightarrow> b \<in> set xs \<Longrightarrow> (c a b < 0) = (key a < key b)"
    and d: "distinct xs" "distinct ys" and s: "set xs = set ys" and inj: "inj_on key (set xs)"
  shows "stableSort c xs = stableSort c ys"
proof -
  let ?a = "stableSort c xs" and ?b = "stableSort c ys"
  have "map key ?a = map key ?b"
  proof (rule sorted_distinct_set_unique)
    show "sorted (map key ?a)" by (rule sorted_stableSort[of "set xs"]) (simp_all add: lt)
    show "sorted (map key ?b)" by (rule sorted_stableSort[of "set xs"]) (simp_all add: lt s)
    show "distinct (map key ?a)" using d(1) inj by (simp add: distinct_map)
    show "distinct (map key ?b)" using d(2) inj s by (simp add: distinct_map)
    show "set (map key ?a) = set (map key ?b)" using s by simp
  qed
  moreover have "inj_on key (set ?a \<union> set ?b)" using inj s by simp
  ultimately show ?thesis by (simp add: inj_on_map_eq_map)
qed

lemma lex_append_eqlen:
  fixes a b :: "'a::linorder list"
  shows "length a = length b \<Longrightarrow> (a @ x < b @ y) = (a < b \<or> a = b \<and> x < y)"
  by (induction a b rule: list_induct2) auto

lemma joinArrow_Cons: "joinArrow (a # p) = (if p = [] then a else a @ ''->'' @ joinArrow p)"
  by (cases p) simp_all

lemma join_less_iff:
  "length p = length q \<Longrightarrow> \<forall>w \<in> set p \<union> set q. length w = L \<Longrightarrow>
   (joinArrow p < joinArrow q) = (concat p < concat q)"
proof (induction p q rule: list_induct2)
  case Nil
  then show ?case by simp
next
  case (Cons a p b q)
  then have ab: "length a = length b" by simp
  from Cons have ih: "(joinArrow p < joinArrow q) = (concat p < concat q)" by simp
  show ?case
  proof (cases "p = []")
    case True
    with Cons.hyps have "q = []" by simp
    with True show ?thesis by simp
  next
    case False
    with Cons.hyps have "q \<noteq> []" by auto
    with False ih show ?thesis
      by (simp add: joinArrow_Cons lex_append_eqlen[OF ab])
  qed
qed

lemma join_inj:
  "length p = length q \<Longrightarrow> \<forall>w \<in> set p \<union> set q. length w = L \<Longrightarrow>
   joinArrow p = joinArrow q \<Longrightarrow> p = q"
proof (induction p q rule: list_induct2)
  case Nil
  then show ?case by simp
next
  case (Cons a p b q)
  then have ab: "length a = length b" by simp
  show ?case
  proof (cases "p = []")
    case True
    with Cons.hyps have "q = []" by simp
    with True Cons.prems show ?thesis by simp
  next
    case False
    with Cons.hyps have "q \<noteq> []" by auto
    with False Cons.prems(2) ab have "a = b" "joinArrow p = joinArrow q"
      by (simp_all add: joinArrow_Cons)
    with Cons show ?thesis by simp
  qed
qed

lemma nbrs_length: "v \<in> nbrs wl b w \<Longrightarrow> length v = length w"
  by (simp add: nbrs_def set_getNeighbors)

lemma layer_length: "w \<in> layer (nbrs wl b) s k \<Longrightarrow> length w = length s"
proof (induction k arbitrary: w)
  case 0
  then show ?case by simp
next
  case (Suc k)
  then obtain p where "p \<in> layer (nbrs wl b) s k" "w \<in> nbrs wl b p" by (auto simp: layer_Suc)
  with Suc.IH[of p] nbrs_length show ?case by auto
qed

lemma shortestWalks_words:
  assumes "P \<in> shortestWalks (nbrs wl b) s t K"
  shows "length P = Suc K \<and> (\<forall>w \<in> set P. length w = length s)"
proof -
  from assms have P: "layeredWalk (nbrs wl b) s P" "length P = Suc K"
    by (simp_all add: shortestWalks_def)
  have "\<forall>w \<in> set P. length w = length s"
  proof
    fix w assume "w \<in> set P"
    then obtain i where "i < length P" "P ! i = w" by (auto simp: in_set_conv_nth)
    with P(1) have "w \<in> layer (nbrs wl b) s i" unfolding layeredWalk_def by auto
    then show "length w = length s" by (rule layer_length)
  qed
  with P(2) show ?thesis by simp
qed

lemma shortestWalks_in_layers:
  assumes "P \<in> shortestWalks N s t K" and "w \<in> set P"
  shows "\<exists>k. w \<in> layer N s k"
proof -
  from assms(1) have P: "layeredWalk N s P" by (simp add: shortestWalks_def)
  from assms(2) obtain i where "i < length P" "P ! i = w" by (auto simp: in_set_conv_nth)
  with P have "w \<in> layer N s i" unfolding layeredWalk_def by auto
  then show ?thesis ..
qed

lemma shortestWalks_join_inj: "inj_on joinArrow (shortestWalks (nbrs wl b) s t K)"
proof (rule inj_onI)
  fix p q assume p: "p \<in> shortestWalks (nbrs wl b) s t K" and q: "q \<in> shortestWalks (nbrs wl b) s t K"
    and e: "joinArrow p = joinArrow q"
  from shortestWalks_words[OF p] shortestWalks_words[OF q]
  have "length p = length q" "\<forall>w \<in> set p \<union> set q. length w = length s" by auto
  from join_inj[OF this e] show "p = q" .
qed

lemma shortestWalks_sorted_concat:
  assumes sub: "set ps \<subseteq> shortestWalks (nbrs wl b) s t K" and so: "sorted (map joinArrow ps)"
  shows "sorted (map concat ps)"
proof -
  have le: "concat p \<le> concat q" if p: "p \<in> set ps" and q: "q \<in> set ps"
    and j: "joinArrow p \<le> joinArrow q" for p q
  proof -
    from sub p q have "p \<in> shortestWalks (nbrs wl b) s t K" "q \<in> shortestWalks (nbrs wl b) s t K"
      by auto
    from shortestWalks_words[OF this(1)] shortestWalks_words[OF this(2)]
    have sh: "length p = length q" "\<forall>w \<in> set p \<union> set q. length w = length s" by auto
    from j have "joinArrow p < joinArrow q \<or> joinArrow p = joinArrow q" by auto
    then show ?thesis
    proof
      assume "joinArrow p < joinArrow q"
      with join_less_iff[OF sh] show ?thesis by simp
    next
      assume "joinArrow p = joinArrow q"
      from join_inj[OF sh this] show ?thesis by simp
    qed
  qed
  from so have "sorted_wrt (\<lambda>p q. joinArrow p \<le> joinArrow q) ps" by (simp add: sorted_map)
  then have "sorted_wrt (\<lambda>p q. concat p \<le> concat q) ps"
    by (rule sorted_wrt_mono_rel[rotated]) (rule le)
  then show ?thesis by (simp add: sorted_map)
qed

lemma runErr_not_runOK:
  assumes er: "runErr N s t" and ok: "runOK N s t fs" and ne: "fs \<noteq> []"
  shows False
proof -
  from er obtain K where K: "\<forall>i<K. layer N s (Suc i) \<noteq> {} \<and> t \<notin> layer N s (Suc i) \<and>
                  layer N s (Suc i) \<inter> set objectPrototypeProps = {}"
    and pr: "layer N s (Suc K) \<inter> set objectPrototypeProps \<noteq> {}"
    unfolding runErr_def by blast
  have "\<not> K < length fs"
  proof
    assume "K < length fs"
    from runOK_frame[OF ok this] pr show False by (simp add: frameOK_def)
  qed
  with ne have "length fs - 1 < K" by (cases fs) auto
  with K have a: "layer N s (Suc (length fs - 1)) \<noteq> {}" "t \<notin> layer N s (Suc (length fs - 1))"
    by simp_all
  from runOK_last[OF ok ne] have "found (last fs) = (t \<in> layer N s (Suc (length fs - 1)))"
    "set (nextFrontier (last fs)) = layer N s (Suc (length fs - 1))"
    by (simp_all add: frameOK_def)
  with a have "\<not> found (last fs)" "nextFrontier (last fs) \<noteq> []" by auto
  with ok ne show False by (simp add: runOK_def)
qed

lemma run_agree_le:
  assumes ok1: "runOK N s t fs" and ne1: "fs \<noteq> []" and ok2: "runOK N s t fs'"
  shows "\<not> length fs < length fs'"
proof
  assume lt: "length fs < length fs'"
  from ne1 obtain k where k: "length fs = Suc k" by (cases fs) auto
  with lt have "Suc k < length fs'" by simp
  with ok2 have "\<not> found (fs' ! k)" by (simp add: runOK_def)
  moreover from lt k have "k < length fs'" by simp
  from runOK_frame[OF ok2 this] have "found (fs' ! k) = (t \<in> layer N s (Suc k))"
    by (simp add: frameOK_def)
  ultimately have a: "t \<notin> layer N s (length fs)" using k by simp
  from runOK_frame[OF ok2 lt] have b: "layer N s (length fs) \<noteq> {}" by (auto simp: frameOK_def)
  from runOK_last[OF ok1 ne1] k have "found (last fs) = (t \<in> layer N s (length fs))"
    "set (nextFrontier (last fs)) = layer N s (length fs)"
    by (simp_all add: frameOK_def)
  with a b have "\<not> found (last fs)" "nextFrontier (last fs) \<noteq> []" by auto
  with ok1 ne1 show False by (simp add: runOK_def)
qed

lemma run_agree:
  assumes ok1: "runOK N s t fs" and ne1: "fs \<noteq> []" and ok2: "runOK N s t fs'" and ne2: "fs' \<noteq> []"
  shows "length fs = length fs' \<and> found (last fs) = found (last fs')"
proof -
  from run_agree_le[OF ok1 ne1 ok2] run_agree_le[OF ok2 ne2 ok1]
  have l: "length fs = length fs'" by simp
  from runOK_last[OF ok1 ne1] runOK_last[OF ok2 ne2] l
  have "found (last fs) = found (last fs')" by (simp add: frameOK_def)
  with l show ?thesis by simp
qed

text \<open>
  The result of the engine depends on the buckets only through the neighbour sets, for
  every collation that, on the joined paths over the words at hand, compares a sort key and
  gives two different joined paths different keys.
\<close>

lemma paths_deterministic:
  fixes key :: "string \<Rightarrow> 'k::linorder"
  assumes lt: "\<forall>p q. set p \<union> set q \<subseteq> W \<longrightarrow>
                 (cmp (joinArrow p) (joinArrow q) < 0) = (key (joinArrow p) < key (joinArrow q))"
    and inj: "\<forall>p q. set p \<union> set q \<subseteq> W \<longrightarrow> key (joinArrow p) = key (joinArrow q) \<longrightarrow>
                 joinArrow p = joinArrow q"
    and W: "\<And>k. layer (nbrs wl b) (toLowerCase beginWord) k \<subseteq> W"
    and N: "nbrs wl b = nbrs wl b'"
  shows "(case frames beginWord endWord wl b of
            Inl e \<Rightarrow> Inl e | Inr fs \<Rightarrow> allPaths cmp (finalParents fs) beginWord endWord) =
         (case frames beginWord endWord wl b' of
            Inl e \<Rightarrow> Inl e | Inr fs \<Rightarrow> allPaths cmp (finalParents fs) beginWord endWord)"
proof (cases beginWord endWord wl b rule: frames_cases)
  case mismatch
  with frames_mismatch[OF mismatch(1), of wl b'] show ?thesis by simp
next
  case e1: error
  show ?thesis
  proof (cases beginWord endWord wl b' rule: frames_cases)
    case mismatch
    with e1 show ?thesis by simp
  next
    case error
    with e1 show ?thesis by simp
  next
    case (run fs')
    from runErr_not_runOK[OF e1(3)[unfolded N] run(4) run(3)] show ?thesis ..
  qed
next
  case r1: (run fs)
  show ?thesis
  proof (cases beginWord endWord wl b' rule: frames_cases)
    case mismatch
    with r1 show ?thesis by simp
  next
    case error
    from runErr_not_runOK[OF error(3) r1(4)[unfolded N] r1(3)] show ?thesis ..
  next
    case r2: (run fs')
    from run_agree[OF r1(4)[unfolded N] r1(3) r2(4) r2(3)]
    have l: "length fs = length fs'" and fd: "found (last fs) = found (last fs')" by simp_all
    have "allPaths cmp (finalParents fs) beginWord endWord
            = allPaths cmp (finalParents fs') beginWord endWord"
      using r1(2)
    proof (cases rule: allPaths_of_run[where cmp = cmp])
      case w1: (walks res)
      from r2(2) show ?thesis
      proof (cases rule: allPaths_of_run[where cmp = cmp])
        case w2: (walks res')
        have s: "set res = set res'" using w1(5) w2(5) l N by simp
        have inW: "set p \<subseteq> W" if "p \<in> set res" for p
          using shortestWalks_in_layers[of p "nbrs wl b" "toLowerCase beginWord"] that W
          unfolding w1(5) by blast
        have c: "(cmp (joinArrow p) (joinArrow q) < 0) = (key (joinArrow p) < key (joinArrow q))"
          if "p \<in> set res" "q \<in> set res" for p q
          using lt[rule_format, of p q] inW[OF that(1)] inW[OF that(2)] by simp
        have ji: "inj_on joinArrow (set res)" unfolding w1(5) by (rule shortestWalks_join_inj)
        have "inj_on (\<lambda>p. key (joinArrow p)) (set res)"
        proof (rule inj_onI)
          fix p q assume p: "p \<in> set res" and q: "q \<in> set res"
            and e: "key (joinArrow p) = key (joinArrow q)"
          from inj[rule_format, of p q] inW[OF p] inW[OF q] e have "joinArrow p = joinArrow q"
            by simp
          with ji p q show "p = q" by (simp add: inj_on_def)
        qed
        from stableSort_unique[of res "\<lambda>a b. cmp (joinArrow a) (joinArrow b)"
            "\<lambda>p. key (joinArrow p)", OF c w1(4) w2(4) s this] w1(3) w2(3)
        show ?thesis by simp
      next
        case none
        with w1(2) r2(3) fd show ?thesis by simp
      qed
    next
      case n1: none
      from r2(2) show ?thesis
      proof (cases rule: allPaths_of_run[where cmp = cmp])
        case (walks res')
        with n1(1) r1(3) fd show ?thesis by simp
      next
        case none
        with n1(3) show ?thesis by simp
      qed
    qed
    with r1(2) r2(2) show ?thesis by simp
  qed
qed

lemma paths_sorted:
  fixes key :: "string \<Rightarrow> 'k::linorder"
  assumes lt: "\<forall>p q. set p \<union> set q \<subseteq> W \<longrightarrow>
                 (cmp (joinArrow p) (joinArrow q) < 0) = (key (joinArrow p) < key (joinArrow q))"
    and W: "\<And>k. layer (nbrs wl b) (toLowerCase beginWord) k \<subseteq> W"
    and fr: "frames beginWord endWord wl b = Inr fs"
    and ap: "allPaths cmp (finalParents fs) beginWord endWord = Inr ps"
  shows "sorted (map (\<lambda>p. key (joinArrow p)) ps) \<and> distinct ps \<and>
         (sorted (map joinArrow ps) \<longrightarrow> sorted (map concat ps))"
  using fr
proof (cases rule: allPaths_of_run[where cmp = cmp])
  case (walks res)
  from walks(3) ap have ps: "ps = stableSort (\<lambda>a b. cmp (joinArrow a) (joinArrow b)) res" by simp
  have inW: "set p \<subseteq> W" if "p \<in> set res" for p
    using shortestWalks_in_layers[of p "nbrs wl b" "toLowerCase beginWord"] that W
    unfolding walks(5) by blast
  have c: "(cmp (joinArrow p) (joinArrow q) < 0) = (key (joinArrow p) < key (joinArrow q))"
    if "p \<in> set res" "q \<in> set res" for p q
    using lt[rule_format, of p q] inW[OF that(1)] inW[OF that(2)] by simp
  have so: "sorted (map (\<lambda>p. key (joinArrow p)) ps)"
    unfolding ps by (rule sorted_stableSort[of "set res"]) (simp_all add: c)
  have sub: "set ps \<subseteq> shortestWalks (nbrs wl b) (toLowerCase beginWord) (toLowerCase endWord) (length fs)"
    using walks(5) ps by simp
  have "sorted (map joinArrow ps) \<longrightarrow> sorted (map concat ps)"
    using shortestWalks_sorted_concat[OF sub] by blast
  with so walks(4) ps show ?thesis by simp
next
  case none
  with ap show ?thesis by (auto split: if_splits)
qed

section \<open>Evaluated runs\<close>

lemma toLowerCase_hit: "toLowerCase ''hit'' = ''hit''"
  by code_simp

lemma toLowerCase_constructor: "toLowerCase ''constructor'' = ''constructor''"
  by code_simp

lemma scenario1_words:
  "words ''hot,dot,dog,lot,log,cog'' ''cog'' = [''hot'', ''dot'', ''dog'', ''lot'', ''log'', ''cog'']"
  by code_simp

lemma scenario1_frames:
  "ladderFrames ''hit'' ''cog'' [''hot'', ''dot'', ''dog'', ''lot'', ''log'', ''cog''] =
     Inr [\<lparr>level = 0, frontier = [''hit''], nextFrontier = [''hot''],
            visitedSnapshot = [''hit'', ''hot''],
            parentsSnapshot = [(''hot'', [''hit''])], found = False\<rparr>,
          \<lparr>level = 1, frontier = [''hot''], nextFrontier = [''dot'', ''lot''],
            visitedSnapshot = [''hit'', ''hot'', ''dot'', ''lot''],
            parentsSnapshot = [(''hot'', [''hit'']), (''dot'', [''hot'']), (''lot'', [''hot''])],
            found = False\<rparr>,
          \<lparr>level = 2, frontier = [''dot'', ''lot''], nextFrontier = [''dog'', ''log''],
            visitedSnapshot = [''hit'', ''hot'', ''dot'', ''lot'', ''dog'', ''log''],
            parentsSnapshot = [(''hot'', [''hit'']), (''dot'', [''hot'']), (''lot'', [''hot'']),
                               (''dog'', [''dot'']), (''log'', [''lot''])],
            found = False\<rparr>,
          \<lparr>level = 3, frontier = [''dog'', ''log''], nextFrontier = [''cog''],
            visitedSnapshot = [''hit'', ''hot'', ''dot'', ''lot'', ''dog'', ''log'', ''cog''],
            parentsSnapshot = [(''hot'', [''hit'']), (''dot'', [''hot'']), (''lot'', [''hot'']),
                               (''dog'', [''dot'']), (''log'', [''lot'']), (''cog'', [''dog'', ''log''])],
            found = True\<rparr>]"
  by code_simp

lemma scenario1_dfs:
  "dfs [(''hot'', [''hit'']), (''dot'', [''hot'']), (''lot'', [''hot'']),
        (''dog'', [''dot'']), (''log'', [''lot'']), (''cog'', [''dog'', ''log''])]
     ''hit'' [''cog''] [''cog''] ''cog'' [] =
   Inr [[''hit'', ''hot'', ''dot'', ''dog'', ''cog''], [''hit'', ''hot'', ''lot'', ''log'', ''cog'']]"
  by code_simp

lemma toLowerCase_cog: "toLowerCase ''cog'' = ''cog''"
  by code_simp

lemma scenario1_paths:
  "\<exists>ps. ladderPaths cmp ''hit'' ''cog'' (words ''hot,dot,dog,lot,log,cog'' ''cog'') = Inr ps \<and>
        set ps = {[''hit'', ''hot'', ''dot'', ''dog'', ''cog''], [''hit'', ''hot'', ''lot'', ''log'', ''cog'']} \<and>
        length ps = 2"
proof -
  let ?fp = "[(''hot'', [''hit'']), (''dot'', [''hot'']), (''lot'', [''hot'']),
        (''dog'', [''dot'']), (''log'', [''lot'']), (''cog'', [''dog'', ''log''])]"
  have g: "getProp ?fp ''cog'' = SetVal [''dog'', ''log'']" by code_simp
  have "allPaths cmp ?fp ''hit'' ''cog'' =
          Inr (stableSort (\<lambda>a b. cmp (joinArrow a) (joinArrow b))
                 [[''hit'', ''hot'', ''dot'', ''dog'', ''cog''], [''hit'', ''hot'', ''lot'', ''log'', ''cog'']])"
    using scenario1_dfs by (simp add: allPaths_def toLowerCase_hit toLowerCase_cog g setAdd_def Let_def)
  then have "ladderPaths cmp ''hit'' ''cog'' (words ''hot,dot,dog,lot,log,cog'' ''cog'') =
          Inr (stableSort (\<lambda>a b. cmp (joinArrow a) (joinArrow b))
                 [[''hit'', ''hot'', ''dot'', ''dog'', ''cog''], [''hit'', ''hot'', ''lot'', ''log'', ''cog'']])"
    by (simp add: ladderPaths_def scenario1_words scenario1_frames finalParents_def)
  then show ?thesis by simp
qed

lemma toLowerCase_dog: "toLowerCase ''dog'' = ''dog''"
  by code_simp

lemma toLowerCase_cat: "toLowerCase ''cat'' = ''cat''"
  by code_simp

lemma no_neighbors_single:
  assumes "set ws \<subseteq> {toLowerCase beginWord}"
  shows "getNeighbors wl (patternBuckets ws wl beginWord) (toLowerCase beginWord) = []"
proof -
  have "nbrs wl (patternBuckets ws wl beginWord) (toLowerCase beginWord) = {}"
    using assms by (auto simp: in_nbrs_iff)
  then show ?thesis by (simp add: nbrs_def)
qed

lemma same_word_single_frame:
  assumes eq: "toLowerCase endWord = toLowerCase beginWord"
    and ws: "set ws \<subseteq> {toLowerCase beginWord}"
  shows "ladderFrames beginWord endWord ws =
           Inr [\<lparr>level = 0, frontier = [toLowerCase beginWord], nextFrontier = [],
                  visitedSnapshot = [toLowerCase beginWord], parentsSnapshot = [],
                  found = False\<rparr>]"
  unfolding ladderFrames_def
  by (rule frames_no_neighbors[OF _ no_neighbors_single[OF ws]]) (simp add: eq)

lemma words_empty: "words [] endWord = [toLowerCase endWord]"
  by (simp add: words_def newSet_def toLowerCase_def)

lemma same_word_inherited:
  assumes eq: "toLowerCase endWord = toLowerCase beginWord"
    and pr: "toLowerCase endWord \<in> set objectPrototypeProps"
  shows "ladderFrames beginWord endWord (words [] endWord) =
           Inr [\<lparr>level = 0, frontier = [toLowerCase beginWord], nextFrontier = [],
                  visitedSnapshot = [toLowerCase beginWord], parentsSnapshot = [],
                  found = False\<rparr>] \<and>
         ladderPaths cmp beginWord endWord (words [] endWord) = Inr [[toLowerCase endWord]]"
proof -
  have f: "ladderFrames beginWord endWord (words [] endWord) =
           Inr [\<lparr>level = 0, frontier = [toLowerCase beginWord], nextFrontier = [],
                  visitedSnapshot = [toLowerCase beginWord], parentsSnapshot = [],
                  found = False\<rparr>]"
    by (rule same_word_single_frame[OF eq]) (simp add: words_empty eq)
  then have "frames beginWord endWord (wordLen beginWord)
      (patternBuckets (words [] endWord) (wordLen beginWord) beginWord) =
           Inr [\<lparr>level = 0, frontier = [toLowerCase beginWord], nextFrontier = [],
                  visitedSnapshot = [toLowerCase beginWord], parentsSnapshot = [],
                  found = False\<rparr>]"
    by (simp add: ladderFrames_def)
  from same_word_run[OF eq[symmetric] this, of cmp] pr f show ?thesis
    by (simp add: ladderPaths_def)
qed

lemma toLowerCase_proto: "toLowerCase ''__proto__'' = ''__proto__''"
  by code_simp

section \<open>The claims\<close>

subsection \<open>C1: completeness of the path enumeration\<close>

lemma hit_hot: "oneLetterApart ''hit'' ''hot''"
  unfolding oneLetterApart_pattern
  by (intro conjI exI[of _ 1]) (simp_all add: patternKey_def)

lemma hot_dot: "oneLetterApart ''hot'' ''dot''"
  unfolding oneLetterApart_pattern
  by (intro conjI exI[of _ 0]) (simp_all add: patternKey_def)

lemma dot_dog: "oneLetterApart ''dot'' ''dog''"
  unfolding oneLetterApart_pattern
  by (intro conjI exI[of _ 2]) (simp_all add: patternKey_def)

lemma dog_cog: "oneLetterApart ''dog'' ''cog''"
  unfolding oneLetterApart_pattern
  by (intro conjI exI[of _ 0]) (simp_all add: patternKey_def)

lemma scenario1_shortest:
  "shortestLadder (words ''hot,dot,dog,lot,log,cog'' ''cog'') (toLowerCase ''hit'') (toLowerCase ''cog'')
     [''hit'', ''hot'', ''dot'', ''dog'', ''cog'']"
  unfolding shortestLadder_def
proof (intro conjI allI impI)
  show "isLadder (words ''hot,dot,dog,lot,log,cog'' ''cog'') (toLowerCase ''hit'') (toLowerCase ''cog'')
          [''hit'', ''hot'', ''dot'', ''dog'', ''cog'']"
    by (simp add: isLadder_def scenario1_words toLowerCase_hit toLowerCase_cog
        hit_hot hot_dot dot_dog dog_cog)
next
  fix Q
  assume "isLadder (words ''hot,dot,dog,lot,log,cog'' ''cog'') (toLowerCase ''hit'') (toLowerCase ''cog'') Q"
  then have q: "isLadder [''hot'', ''dot'', ''dog'', ''lot'', ''log'', ''cog''] (toLowerCase ''hit'')
                  (toLowerCase ''cog'') Q"
    by (simp add: scenario1_words)
  have "Suc 4 \<le> length Q"
    using found_ladder_length[OF scenario1_frames _ _ _ q] by (simp add: toLowerCase_cog)
  then show "length [''hit'', ''hot'', ''dot'', ''dog'', ''cog''] \<le> length Q" by simp
qed

text \<open>
  C1, as amended. Let the lower-cased begin and end words be different, let no word of the
  word array (nor the begin word) contain the wildcard character \<^verbatim>\<open>*\<close>, and let no word of
  the word array be the name of a property of \<^verbatim>\<open>Object.prototype\<close>. Then, for every
  shortest transformation sequence from the begin word to the end word, the engine returns
  normally and the sequence is in the returned path list, whatever the collation. For
  begin word \<^verbatim>\<open>hit\<close>, end word \<^verbatim>\<open>cog\<close> and word list \<^verbatim>\<open>hot,dot,dog,lot,log,cog\<close> the
  returned list consists of exactly the two paths hit, hot, dot, dog, cog and
  hit, hot, lot, log, cog.
\<close>

theorem shortest_ladders_enumerated:
  assumes "toLowerCase beginWord \<noteq> toLowerCase endWord"
    and "\<forall>w \<in> insert (toLowerCase beginWord) (set (words wordListText endWord)). CHR ''*'' \<notin> set w"
    and "set (words wordListText endWord) \<inter> set objectPrototypeProps = {}"
    and "shortestLadder (words wordListText endWord) (toLowerCase beginWord) (toLowerCase endWord) P"
  shows "(\<exists>fs ps. ladderFrames beginWord endWord (words wordListText endWord) = Inr fs \<and>
                  ladderPaths cmp beginWord endWord (words wordListText endWord) = Inr ps \<and>
                  P \<in> set ps) \<and>
         (\<exists>ps. ladderPaths cmp ''hit'' ''cog'' (words ''hot,dot,dog,lot,log,cog'' ''cog'') = Inr ps \<and>
               set ps = {[''hit'', ''hot'', ''dot'', ''dog'', ''cog''],
                         [''hit'', ''hot'', ''lot'', ''log'', ''cog'']} \<and>
               length ps = 2)"
  using ladderPaths_complete[OF assms(2,3) endWord_in_words assms(1,4), of cmp]
    scenario1_paths[of cmp]
  by simp

theorem shortest_ladders_enumerated_witness:
  "shortestLadder (words ''hot,dot,dog,lot,log,cog'' ''cog'') (toLowerCase ''hit'') (toLowerCase ''cog'')
     [''hit'', ''hot'', ''dot'', ''dog'', ''cog''] \<and>
   (\<exists>fs ps. ladderFrames ''hit'' ''cog'' (words ''hot,dot,dog,lot,log,cog'' ''cog'') = Inr fs \<and>
            ladderPaths lexCompare ''hit'' ''cog'' (words ''hot,dot,dog,lot,log,cog'' ''cog'') = Inr ps \<and>
            [''hit'', ''hot'', ''dot'', ''dog'', ''cog''] \<in> set ps)"
proof -
  have h1: "toLowerCase ''hit'' \<noteq> toLowerCase ''cog''"
    by (simp add: toLowerCase_hit toLowerCase_cog)
  have h2: "\<forall>w \<in> insert (toLowerCase ''hit'') (set (words ''hot,dot,dog,lot,log,cog'' ''cog'')).
              CHR ''*'' \<notin> set w"
    by (simp add: scenario1_words toLowerCase_hit)
  have h3: "set (words ''hot,dot,dog,lot,log,cog'' ''cog'') \<inter> set objectPrototypeProps = {}"
    by (simp add: scenario1_words objectPrototypeProps_def)
  from shortest_ladders_enumerated[OF h1 h2 h3 scenario1_shortest, of lexCompare] scenario1_shortest
  show ?thesis by blast
qed

lemma same_word_paths:
  "ladderPaths lexCompare ''hit'' ''hit'' (words ''hot'' ''hit'') = Inr []"
  by code_simp

text \<open>
  C1 as stated fails when the begin word equals the end word: the one-word sequence is then
  the shortest transformation sequence, and the returned path list is empty.
\<close>

theorem same_word_ladder_not_returned:
  "\<not> (\<forall>P. shortestLadder (words ''hot'' ''hit'') (toLowerCase ''hit'') (toLowerCase ''hit'') P \<longrightarrow>
          (\<exists>ps. ladderPaths lexCompare ''hit'' ''hit'' (words ''hot'' ''hit'') = Inr ps \<and> P \<in> set ps))"
proof
  assume a: "\<forall>P. shortestLadder (words ''hot'' ''hit'') (toLowerCase ''hit'') (toLowerCase ''hit'') P \<longrightarrow>
          (\<exists>ps. ladderPaths lexCompare ''hit'' ''hit'' (words ''hot'' ''hit'') = Inr ps \<and> P \<in> set ps)"
  have "isLadder (words ''hot'' ''hit'') (toLowerCase ''hit'') (toLowerCase ''hit'') [''hit'']"
    by (simp add: isLadder_def toLowerCase_hit)
  moreover have "length [''hit''] \<le> length Q"
    if "isLadder (words ''hot'' ''hit'') (toLowerCase ''hit'') (toLowerCase ''hit'') Q" for Q
    using that by (cases Q) (simp_all add: isLadder_def)
  ultimately have "shortestLadder (words ''hot'' ''hit'') (toLowerCase ''hit'') (toLowerCase ''hit'') [''hit'']"
    by (simp add: shortestLadder_def)
  with a obtain ps where "ladderPaths lexCompare ''hit'' ''hit'' (words ''hot'' ''hit'') = Inr ps"
    "[''hit''] \<in> set ps" by blast
  then show False by (simp add: same_word_paths)
qed

subsection \<open>C2: minimality\<close>

text \<open>
  C2 (minimality). By \<open>returned_path_length\<close> every returned path has the index of the first
  frame with the found flag plus two words, with one exception, and that exception breaks
  the claim: with begin and end word both \<^verbatim>\<open>constructor\<close> and an empty word list the single
  frame has found = false, the guard \<^verbatim>\<open>if (!finalParents[tgt]) return res\<close> reads the
  inherited \<^verbatim>\<open>Object.prototype.constructor\<close>, and the reconstruction returns the one-word
  path although no frame ever set the found flag.
\<close>

theorem inherited_end_word_path:
  "ladderFrames ''constructor'' ''constructor'' (words [] ''constructor'') =
     Inr [\<lparr>level = 0, frontier = [''constructor''], nextFrontier = [],
            visitedSnapshot = [''constructor''], parentsSnapshot = [], found = False\<rparr>] \<and>
   ladderPaths cmp ''constructor'' ''constructor'' (words [] ''constructor'') = Inr [[''constructor'']]"
  using same_word_inherited[of "''constructor''" "''constructor''" cmp]
  by (simp add: toLowerCase_constructor objectPrototypeProps_def)

subsection \<open>C3: the layering invariant\<close>

text \<open>
  C3 (layering invariant). In every frame of a run that returns, a word with an entry in
  the parents snapshot was discovered in some frame \<open>i\<close> up to that one (it is in the next
  frontier of frame \<open>i\<close>), its recorded parents are exactly the nodes of the frontier of
  frame \<open>i\<close> that have it as a neighbour, and none of them is in the frontier of any other
  frame. Every frame carries its index as its level, and its next frontier consists of the
  neighbours of its frontier that are not in the visited set as it was when the level
  started: the begin word alone for the first level, the visited snapshot of the previous
  frame afterwards.
\<close>

theorem layering_invariant:
  assumes "frames beginWord endWord wl buckets = Inr fs"
  shows "(\<forall>j<length fs. \<forall>w ps. map_of (parentsSnapshot (fs ! j)) w = Some ps \<longrightarrow>
            (\<exists>i\<le>j. w \<in> set (nextFrontier (fs ! i)) \<and>
                    set ps = {p \<in> set (frontier (fs ! i)). w \<in> set (getNeighbors wl buckets p)} \<and>
                    (\<forall>i'<length fs. i' \<noteq> i \<longrightarrow> set ps \<inter> set (frontier (fs ! i')) = {}))) \<and>
         (\<forall>i<length fs. level (fs ! i) = i \<and>
            set (nextFrontier (fs ! i)) =
              (\<Union>p \<in> set (frontier (fs ! i)). set (getNeighbors wl buckets p)) -
              set (if i = 0 then [toLowerCase beginWord] else visitedSnapshot (fs ! (i - 1))))"
proof (cases beginWord endWord wl buckets rule: frames_cases)
  case mismatch
  with assms show ?thesis by simp
next
  case error
  with assms show ?thesis by simp
next
  case (run fs')
  with assms have ok: "runOK (nbrs wl buckets) (toLowerCase beginWord) (toLowerCase endWord) fs"
    by simp
  show ?thesis
    using runOK_parents_layered[OF ok] runOK_next_deferred[OF ok] by blast
qed

theorem layering_invariant_witness:
  "\<exists>fs. ladderFrames ''hit'' ''cog'' [''hot'', ''dot'', ''dog'', ''lot'', ''log'', ''cog''] = Inr fs \<and>
     (\<exists>i\<le>3. ''cog'' \<in> set (nextFrontier (fs ! i)) \<and>
        set [''dog'', ''log''] =
          {p \<in> set (frontier (fs ! i)).
             ''cog'' \<in> set (getNeighbors (wordLen ''hit'')
                 (patternBuckets [''hot'', ''dot'', ''dog'', ''lot'', ''log'', ''cog''] (wordLen ''hit'') ''hit'') p)})"
proof -
  obtain fs where fs: "ladderFrames ''hit'' ''cog'' [''hot'', ''dot'', ''dog'', ''lot'', ''log'', ''cog''] = Inr fs"
    and l: "length fs = 4"
    and m: "map_of (parentsSnapshot (fs ! 3)) ''cog'' = Some [''dog'', ''log'']"
    using scenario1_frames by simp
  from fs have "frames ''hit'' ''cog'' (wordLen ''hit'')
      (patternBuckets [''hot'', ''dot'', ''dog'', ''lot'', ''log'', ''cog''] (wordLen ''hit'') ''hit'') = Inr fs"
    by (simp add: ladderFrames_def)
  from layering_invariant[OF this]
  have A: "\<forall>j<length fs. \<forall>w ps. map_of (parentsSnapshot (fs ! j)) w = Some ps \<longrightarrow>
            (\<exists>i\<le>j. w \<in> set (nextFrontier (fs ! i)) \<and>
                    set ps = {p \<in> set (frontier (fs ! i)).
                      w \<in> set (getNeighbors (wordLen ''hit'')
                        (patternBuckets [''hot'', ''dot'', ''dog'', ''lot'', ''log'', ''cog''] (wordLen ''hit'') ''hit'') p)} \<and>
                    (\<forall>i'<length fs. i' \<noteq> i \<longrightarrow> set ps \<inter> set (frontier (fs ! i')) = {}))"
    by (rule conjunct1)
  have "3 < length fs" using l by simp
  from A[rule_format, OF this m]
  have "\<exists>i\<le>3. ''cog'' \<in> set (nextFrontier (fs ! i)) \<and>
        set [''dog'', ''log''] =
          {p \<in> set (frontier (fs ! i)).
             ''cog'' \<in> set (getNeighbors (wordLen ''hit'')
                 (patternBuckets [''hot'', ''dot'', ''dog'', ''lot'', ''log'', ''cog''] (wordLen ''hit'') ''hit'') p)}"
    by blast
  with fs show ?thesis by blast
qed

subsection \<open>C4: sorted and deterministic output\<close>

text \<open>
  C4, as amended. The path reconstruction sorts the collected paths, stably, by the host's
  \<^verbatim>\<open>localeCompare\<close> of their \<^verbatim>\<open>->\<close>-joined words. Let that comparison, on the joined
  paths over the begin word and the words of the word array, be the comparison of a sort
  key. Then every path list the engine returns is sorted by the sort key of the joined
  paths and has no duplicates; if the sort key orders those joined paths lexicographically
  by character code, the list is sorted lexicographically by the joined paths and by the
  concatenation of the words of the paths; and if the sort key never gives two different
  joined paths the same key (the comparison never ties on them), the result of the engine,
  a path list or the TypeError, is the same for every word array with the same set of
  words, whatever their order. By \<open>paths_deterministic\<close> the result then depends on the
  buckets only through the neighbour sets, so it is also independent of the order within
  buckets and parent sets.
\<close>

theorem sorted_deterministic_paths:
  fixes key :: "string \<Rightarrow> 'k::linorder"
  assumes "\<forall>p q. set p \<union> set q \<subseteq> insert (toLowerCase beginWord) (set ws) \<longrightarrow>
             (cmp (joinArrow p) (joinArrow q) < 0) = (key (joinArrow p) < key (joinArrow q))"
  shows "(\<forall>ps. ladderPaths cmp beginWord endWord ws = Inr ps \<longrightarrow>
            sorted (map (\<lambda>p. key (joinArrow p)) ps) \<and> distinct ps \<and>
            ((\<forall>p q. set p \<union> set q \<subseteq> insert (toLowerCase beginWord) (set ws) \<longrightarrow>
                 (key (joinArrow p) < key (joinArrow q)) = (joinArrow p < joinArrow q)) \<longrightarrow>
             sorted (map joinArrow ps) \<and> sorted (map concat ps))) \<and>
         ((\<forall>p q. set p \<union> set q \<subseteq> insert (toLowerCase beginWord) (set ws) \<longrightarrow>
              key (joinArrow p) = key (joinArrow q) \<longrightarrow> joinArrow p = joinArrow q) \<longrightarrow>
          (\<forall>ws'. set ws' = set ws \<longrightarrow>
             ladderPaths cmp beginWord endWord ws' = ladderPaths cmp beginWord endWord ws))"
proof -
  let ?W = "insert (toLowerCase beginWord) (set ws)"
  let ?b = "patternBuckets ws (wordLen beginWord) beginWord"
  have W: "layer (nbrs (wordLen beginWord) ?b) (toLowerCase beginWord) k \<subseteq> ?W" for k
    using layer_words[of _ "wordLen beginWord" ws beginWord k] by blast
  have A: "sorted (map (\<lambda>p. key (joinArrow p)) ps) \<and> distinct ps \<and>
           ((\<forall>p q. set p \<union> set q \<subseteq> ?W \<longrightarrow>
                (key (joinArrow p) < key (joinArrow q)) = (joinArrow p < joinArrow q)) \<longrightarrow>
            sorted (map joinArrow ps) \<and> sorted (map concat ps))"
    if a: "ladderPaths cmp beginWord endWord ws = Inr ps" for ps
  proof -
    from a obtain fs where fs: "frames beginWord endWord (wordLen beginWord) ?b = Inr fs"
      "allPaths cmp (finalParents fs) beginWord endWord = Inr ps"
      by (auto simp: ladderPaths_def ladderFrames_def split: sum.splits)
    from paths_sorted[OF assms W fs]
    have s1: "sorted (map (\<lambda>p. key (joinArrow p)) ps)" "distinct ps" by simp_all
    have "sorted (map joinArrow ps) \<and> sorted (map concat ps)"
      if c: "\<forall>p q. set p \<union> set q \<subseteq> ?W \<longrightarrow>
               (key (joinArrow p) < key (joinArrow q)) = (joinArrow p < joinArrow q)"
    proof -
      from assms c have "\<forall>p q. set p \<union> set q \<subseteq> ?W \<longrightarrow>
          (cmp (joinArrow p) (joinArrow q) < 0) = (joinArrow p < joinArrow q)" by simp
      from paths_sorted[of ?W cmp "\<lambda>a. a", OF this W fs] show ?thesis by simp
    qed
    with s1 show ?thesis by simp
  qed
  have B: "ladderPaths cmp beginWord endWord ws' = ladderPaths cmp beginWord endWord ws"
    if inj: "\<forall>p q. set p \<union> set q \<subseteq> ?W \<longrightarrow>
               key (joinArrow p) = key (joinArrow q) \<longrightarrow> joinArrow p = joinArrow q"
      and s: "set ws' = set ws" for ws'
  proof -
    from nbrs_same_words[OF s[symmetric], of "wordLen beginWord" beginWord]
    have "nbrs (wordLen beginWord) ?b
          = nbrs (wordLen beginWord) (patternBuckets ws' (wordLen beginWord) beginWord)" .
    from paths_deterministic[of ?W cmp key, OF assms inj W this, of endWord]
    show ?thesis by (simp add: ladderPaths_def ladderFrames_def)
  qed
  from A B show ?thesis by blast
qed

lemma scenario1_sorted_paths:
  "ladderPaths lexCompare ''hit'' ''cog'' [''hot'', ''dot'', ''dog'', ''lot'', ''log'', ''cog''] =
     Inr [[''hit'', ''hot'', ''dot'', ''dog'', ''cog''], [''hit'', ''hot'', ''lot'', ''log'', ''cog'']]"
  by code_simp

theorem sorted_deterministic_paths_witness:
  "sorted (map concat [[''hit'', ''hot'', ''dot'', ''dog'', ''cog''], [''hit'', ''hot'', ''lot'', ''log'', ''cog'']]) \<and>
   ladderPaths lexCompare ''hit'' ''cog'' [''cog'', ''log'', ''lot'', ''dog'', ''dot'', ''hot''] =
     Inr [[''hit'', ''hot'', ''dot'', ''dog'', ''cog''], [''hit'', ''hot'', ''lot'', ''log'', ''cog'']]"
proof -
  let ?ws = "[''hot'', ''dot'', ''dog'', ''lot'', ''log'', ''cog'']"
  let ?W = "insert (toLowerCase ''hit'') (set ?ws)"
  have h: "\<forall>p q. set p \<union> set q \<subseteq> ?W \<longrightarrow>
             (lexCompare (joinArrow p) (joinArrow q) < 0) = (joinArrow p < joinArrow q)"
    by (simp add: lexCompare_def)
  from sorted_deterministic_paths[of "''hit''" ?ws lexCompare "\<lambda>a. a" "''cog''", OF h]
  have a: "\<forall>ps. ladderPaths lexCompare ''hit'' ''cog'' ?ws = Inr ps \<longrightarrow>
             sorted (map joinArrow ps) \<and> distinct ps \<and>
             ((\<forall>p q. set p \<union> set q \<subseteq> ?W \<longrightarrow>
                  (joinArrow p < joinArrow q) = (joinArrow p < joinArrow q)) \<longrightarrow>
              sorted (map joinArrow ps) \<and> sorted (map concat ps))"
    and b: "(\<forall>p q. set p \<union> set q \<subseteq> ?W \<longrightarrow>
               joinArrow p = joinArrow q \<longrightarrow> joinArrow p = joinArrow q) \<longrightarrow>
            (\<forall>ws'. set ws' = set ?ws \<longrightarrow>
               ladderPaths lexCompare ''hit'' ''cog'' ws' = ladderPaths lexCompare ''hit'' ''cog'' ?ws)"
    by (rule conjunct1, rule conjunct2)
  from a[rule_format, OF scenario1_sorted_paths]
  have s: "sorted (map concat [[''hit'', ''hot'', ''dot'', ''dog'', ''cog''],
                               [''hit'', ''hot'', ''lot'', ''log'', ''cog'']])"
    by blast
  have "set [''cog'', ''log'', ''lot'', ''dog'', ''dot'', ''hot''] = set ?ws" by auto
  with b have "ladderPaths lexCompare ''hit'' ''cog'' [''cog'', ''log'', ''lot'', ''dog'', ''dot'', ''hot'']
                 = ladderPaths lexCompare ''hit'' ''cog'' ?ws" by blast
  with s scenario1_sorted_paths show ?thesis by simp
qed

lemma ignorable_run_forward:
  "ladderPaths ignoringControls (CHR 0x01 # ''aa'') (CHR 0x04 # ''ba'')
     [CHR 0x02 # ''aa'', CHR 0x03 # ''aa'', CHR 0x02 # ''ba'', CHR 0x03 # ''ba'', CHR 0x04 # ''ba''] =
   Inr [[CHR 0x01 # ''aa'', CHR 0x02 # ''aa'', CHR 0x02 # ''ba'', CHR 0x04 # ''ba''],
        [CHR 0x01 # ''aa'', CHR 0x03 # ''aa'', CHR 0x03 # ''ba'', CHR 0x04 # ''ba'']]"
  by code_simp

lemma ignorable_run_swapped:
  "ladderPaths ignoringControls (CHR 0x01 # ''aa'') (CHR 0x04 # ''ba'')
     [CHR 0x03 # ''aa'', CHR 0x02 # ''aa'', CHR 0x02 # ''ba'', CHR 0x03 # ''ba'', CHR 0x04 # ''ba''] =
   Inr [[CHR 0x01 # ''aa'', CHR 0x03 # ''aa'', CHR 0x03 # ''ba'', CHR 0x04 # ''ba''],
        [CHR 0x01 # ''aa'', CHR 0x02 # ''aa'', CHR 0x02 # ''ba'', CHR 0x04 # ''ba'']]"
  by code_simp

lemma ignorable_run_unsorted:
  "\<not> sorted (map concat
       [[CHR 0x01 # ''aa'', CHR 0x03 # ''aa'', CHR 0x03 # ''ba'', CHR 0x04 # ''ba''],
        [CHR 0x01 # ''aa'', CHR 0x02 # ''aa'', CHR 0x02 # ''ba'', CHR 0x04 # ''ba'']])"
  by code_simp

text \<open>
  C4 as stated fails when the comparison ties on two different paths, and then the stable
  sort leaves them in the order of their discovery. Under the collation \<open>ignoringControls\<close>
  the paths U+0001 aa, U+0002 aa, U+0002 ba, U+0004 ba and U+0001 aa, U+0003 aa, U+0003 ba,
  U+0004 ba differ in ignorable characters only. For the same set of words the engine
  returns them in one order when the word array lists U+0002 aa before U+0003 aa, and in
  the other order, which is not sorted by concatenation, when it lists U+0003 aa first.
\<close>

theorem tied_paths_follow_dictionary_order:
  "set [CHR 0x03 # ''aa'', CHR 0x02 # ''aa'', CHR 0x02 # ''ba'', CHR 0x03 # ''ba'', CHR 0x04 # ''ba''] =
   set [CHR 0x02 # ''aa'', CHR 0x03 # ''aa'', CHR 0x02 # ''ba'', CHR 0x03 # ''ba'', CHR 0x04 # ''ba''] \<and>
   ladderPaths ignoringControls (CHR 0x01 # ''aa'') (CHR 0x04 # ''ba'')
     [CHR 0x03 # ''aa'', CHR 0x02 # ''aa'', CHR 0x02 # ''ba'', CHR 0x03 # ''ba'', CHR 0x04 # ''ba''] \<noteq>
   ladderPaths ignoringControls (CHR 0x01 # ''aa'') (CHR 0x04 # ''ba'')
     [CHR 0x02 # ''aa'', CHR 0x03 # ''aa'', CHR 0x02 # ''ba'', CHR 0x03 # ''ba'', CHR 0x04 # ''ba''] \<and>
   ladderPaths ignoringControls (CHR 0x01 # ''aa'') (CHR 0x04 # ''ba'')
     [CHR 0x03 # ''aa'', CHR 0x02 # ''aa'', CHR 0x02 # ''ba'', CHR 0x03 # ''ba'', CHR 0x04 # ''ba''] =
   Inr [[CHR 0x01 # ''aa'', CHR 0x03 # ''aa'', CHR 0x03 # ''ba'', CHR 0x04 # ''ba''],
        [CHR 0x01 # ''aa'', CHR 0x02 # ''aa'', CHR 0x02 # ''ba'', CHR 0x04 # ''ba'']] \<and>
   \<not> sorted (map concat
       [[CHR 0x01 # ''aa'', CHR 0x03 # ''aa'', CHR 0x03 # ''ba'', CHR 0x04 # ''ba''],
        [CHR 0x01 # ''aa'', CHR 0x02 # ''aa'', CHR 0x02 # ''ba'', CHR 0x04 # ''ba'']])"
proof -
  have "set [CHR 0x03 # ''aa'', CHR 0x02 # ''aa'', CHR 0x02 # ''ba'', CHR 0x03 # ''ba'', CHR 0x04 # ''ba''] =
        set [CHR 0x02 # ''aa'', CHR 0x03 # ''aa'', CHR 0x02 # ''ba'', CHR 0x03 # ''ba'', CHR 0x04 # ''ba'']"
    by auto
  then show ?thesis
    using ignorable_run_unsorted
    by (simp only: ignorable_run_forward ignorable_run_swapped) simp
qed

subsection \<open>C5: the pattern buckets\<close>

text \<open>
  C5, as amended. After the index is built, a word of the word array that has the length
  of the begin word and does not contain the wildcard character occurs in exactly as many
  buckets as it has letters, namely those of its own wildcard patterns; in each of them it
  occurs once, except that it occurs twice when it is the (lower-cased) begin word, which
  the index adds a second time.
\<close>

theorem pattern_bucket_invariant:
  assumes "w \<in> set (words wordListText endWord)" and "length w = wordLen beginWord"
    and "CHR ''*'' \<notin> set w"
  shows "{k. w \<in> set (bucketOf (patternBuckets (words wordListText endWord) (wordLen beginWord) beginWord) k)}
           = patternKey w ` {0..<length w} \<and>
         card {k. w \<in> set (bucketOf (patternBuckets (words wordListText endWord) (wordLen beginWord) beginWord) k)}
           = length w \<and>
         (\<forall>i<length w.
            count_list (bucketOf (patternBuckets (words wordListText endWord) (wordLen beginWord) beginWord)
                          (patternKey w i)) w
              = (if w = toLowerCase beginWord then 2 else 1))"
proof -
  let ?b = "patternBuckets (words wordListText endWord) (wordLen beginWord) beginWord"
  have k: "{k. w \<in> set (bucketOf ?b k)} = patternKey w ` {0..<length w}"
    using buckets_of_word[OF assms(1,2)] assms(2) by simp
  have c: "card {k. w \<in> set (bucketOf ?b k)} = length w"
    unfolding k using patternKey_inj[OF assms(3)] by (simp add: card_image)
  have lb: "length beginWord = wordLen beginWord" by (simp add: wordLen_def)
  have "count_list (bucketOf ?b (patternKey w i)) w = (if w = toLowerCase beginWord then 2 else 1)"
    if "i < length w" for i
  proof -
    from hits_starfree[OF assms(3) that] assms(2)
    have h: "hits (wordLen beginWord) w (patternKey w i) = 1" by simp
    from count_in_bucket[OF distinct_words assms(1,2) lb, of "patternKey w i"]
    show ?thesis unfolding h by simp
  qed
  with k c show ?thesis by blast
qed

theorem pattern_bucket_invariant_witness:
  "card {k. ''hot'' \<in> set (bucketOf (patternBuckets (words ''hot,dot,dog,lot,log,cog'' ''cog'')
                                        (wordLen ''hit'') ''hit'') k)} = 3 \<and>
   count_list (bucketOf (patternBuckets (words ''hot,dot,dog,lot,log,cog'' ''cog'') (wordLen ''hit'') ''hit'')
                 (patternKey ''hot'' 0)) ''hot'' = 1"
proof -
  have h1: "''hot'' \<in> set (words ''hot,dot,dog,lot,log,cog'' ''cog'')"
    by (simp add: scenario1_words)
  have h2: "length ''hot'' = wordLen ''hit''" by (simp add: wordLen_def)
  have h3: "CHR ''*'' \<notin> set ''hot''" by simp
  have ne: "''hot'' \<noteq> toLowerCase ''hit''" by (simp add: toLowerCase_hit)
  let ?b = "patternBuckets (words ''hot,dot,dog,lot,log,cog'' ''cog'') (wordLen ''hit'') ''hit''"
  from pattern_bucket_invariant[OF h1 h2 h3]
  have c: "card {k. ''hot'' \<in> set (bucketOf ?b k)} = length ''hot''"
    and n: "\<forall>i<length ''hot''. count_list (bucketOf ?b (patternKey ''hot'' i)) ''hot''
              = (if ''hot'' = toLowerCase ''hit'' then 2 else 1)"
    by blast+
  from n ne have "count_list (bucketOf ?b (patternKey ''hot'' 0)) ''hot'' = 1" by simp
  with c show ?thesis by simp
qed

text \<open>
  C5 as stated fails when the begin word is in the dictionary: it is pushed a second time.
\<close>

theorem begin_word_bucketed_twice:
  "''hot'' \<in> set (words ''hot,dot'' ''dot'') \<and> length ''hot'' = wordLen ''hot'' \<and>
   count_list (bucketOf (patternBuckets (words ''hot,dot'' ''dot'') (wordLen ''hot'') ''hot'')
                 (patternKey ''hot'' 0)) ''hot'' = 2"
  by code_simp

subsection \<open>C6: exhaustion\<close>

text \<open>
  C6, as amended. For begin and end words of equal length, a frame sequence that the
  engine returns is never empty; its last frame has an empty next frontier exactly when its
  found flag is false, and then no frame has the flag set. When the begin word has no
  neighbours the sequence consists of one frame: level 0, the begin word as frontier, an
  empty next frontier, the begin word as the only visited word, no parents, found false.
\<close>

theorem exhaustion:
  assumes "length (toLowerCase beginWord) = length (toLowerCase endWord)"
  shows "(\<forall>fs. frames beginWord endWord wl buckets = Inr fs \<longrightarrow>
            fs \<noteq> [] \<and> (nextFrontier (last fs) = [] \<longleftrightarrow> \<not> found (last fs)) \<and>
            (nextFrontier (last fs) = [] \<longrightarrow> (\<forall>f \<in> set fs. \<not> found f))) \<and>
         (getNeighbors wl buckets (toLowerCase beginWord) = [] \<longrightarrow>
            frames beginWord endWord wl buckets =
              Inr [\<lparr>level = 0, frontier = [toLowerCase beginWord], nextFrontier = [],
                     visitedSnapshot = [toLowerCase beginWord], parentsSnapshot = [],
                     found = False\<rparr>])"
proof (intro conjI allI impI)
  fix fs assume fr: "frames beginWord endWord wl buckets = Inr fs"
  then have ne: "fs \<noteq> []"
    and ok: "runOK (nbrs wl buckets) (toLowerCase beginWord) (toLowerCase endWord) fs"
    using frames_run[OF assms, of wl buckets] by simp_all
  from ne show "fs \<noteq> []" .
  from runOK_last_found_iff[OF ok ne]
  show "nextFrontier (last fs) = [] \<longleftrightarrow> \<not> found (last fs)" by simp
  assume "nextFrontier (last fs) = []"
  with runOK_last_found_iff[OF ok ne] have "\<not> found (last fs)" by simp
  with runOK_not_found_before[OF ok ne] show "\<forall>f \<in> set fs. \<not> found f" by blast
next
  assume "getNeighbors wl buckets (toLowerCase beginWord) = []"
  from frames_no_neighbors[OF assms this]
  show "frames beginWord endWord wl buckets =
              Inr [\<lparr>level = 0, frontier = [toLowerCase beginWord], nextFrontier = [],
                     visitedSnapshot = [toLowerCase beginWord], parentsSnapshot = [],
                     found = False\<rparr>]" .
qed

lemma scenario3_neighbors:
  "getNeighbors (wordLen ''dog'') (patternBuckets (words ''dog,cot,cat'' ''cat'') (wordLen ''dog'') ''dog'')
     (toLowerCase ''dog'') = []"
  by code_simp

theorem exhaustion_witness:
  "\<exists>fs. ladderFrames ''dog'' ''cat'' (words ''dog,cot,cat'' ''cat'') = Inr fs \<and>
        fs = [\<lparr>level = 0, frontier = [''dog''], nextFrontier = [],
                visitedSnapshot = [''dog''], parentsSnapshot = [], found = False\<rparr>] \<and>
        nextFrontier (last fs) = [] \<and> \<not> found (last fs)"
proof -
  have len: "length (toLowerCase ''dog'') = length (toLowerCase ''cat'')" by simp
  from exhaustion[OF len, of "wordLen ''dog''"
      "patternBuckets (words ''dog,cot,cat'' ''cat'') (wordLen ''dog'') ''dog''"]
    scenario3_neighbors
  have "frames ''dog'' ''cat'' (wordLen ''dog'')
          (patternBuckets (words ''dog,cot,cat'' ''cat'') (wordLen ''dog'') ''dog'') =
        Inr [\<lparr>level = 0, frontier = [toLowerCase ''dog''], nextFrontier = [],
                visitedSnapshot = [toLowerCase ''dog''], parentsSnapshot = [], found = False\<rparr>]"
    by blast
  then show ?thesis by (simp add: ladderFrames_def toLowerCase_dog)
qed

text \<open>
  C6 as stated fails: a begin word without neighbours still yields one frame.
\<close>

theorem no_neighbors_one_frame:
  "length (toLowerCase ''hit'') = length (toLowerCase ''cog'') \<and>
   getNeighbors (wordLen ''hit'') (patternBuckets (words [] ''cog'') (wordLen ''hit'') ''hit'')
     (toLowerCase ''hit'') = [] \<and>
   ladderFrames ''hit'' ''cog'' (words [] ''cog'') \<noteq> Inr []"
  by code_simp

subsection \<open>C7: the early exit for words of different length\<close>

text \<open>
  C7 (length-mismatch early exit). For begin and end words of different length the
  frame sequence is empty, and the claim adds that the path list is empty and no error is
  raised. With the end word \<^verbatim>\<open>constructor\<close> the guard \<^verbatim>\<open>if (!finalParents[tgt]) return res\<close>
  reads the inherited \<^verbatim>\<open>Object.prototype.constructor\<close> from the empty parents object, does
  not return, and the backtracking then fails to iterate that value: for every word array
  the frame sequence is empty and the path reconstruction throws a TypeError.
\<close>

theorem length_mismatch_throws:
  "ladderFrames ''hit'' ''constructor'' ws = Inr [] \<and>
   ladderPaths cmp ''hit'' ''constructor'' ws = Inl TypeError"
proof -
  have f: "ladderFrames ''hit'' ''constructor'' ws = Inr []"
    unfolding ladderFrames_def by (rule frames_mismatch) (simp add: toLowerCase_def)
  have g: "getProp [] ''constructor'' = Inherited" by code_simp
  have "dfs [] ''hit'' [''constructor''] (setAdd [] ''constructor'') ''constructor'' [] = Inl TypeError"
    by (subst dfs.simps) (simp add: g)
  then have "allPaths cmp [] ''hit'' ''constructor'' = Inl TypeError"
    by (simp add: allPaths_def toLowerCase_hit toLowerCase_constructor g)
  with f show ?thesis by (simp add: ladderPaths_def finalParents_def)
qed

subsection \<open>C8: begin word equal to end word\<close>

text \<open>
  C8 (begin equals end). By \<open>same_word_run\<close> no frame has the found flag when the two words
  are equal, and the path list is empty unless the word names a property of
  \<^verbatim>\<open>Object.prototype\<close>. With begin and end word both \<^verbatim>\<open>__proto__\<close> the guard
  \<^verbatim>\<open>if (!finalParents[tgt]) return res\<close> reads the inherited value, and the one-word ladder,
  which the claim says is never returned, is returned.
\<close>

theorem same_word_inherited_path:
  "ladderFrames ''__proto__'' ''__proto__'' (words [] ''__proto__'') =
     Inr [\<lparr>level = 0, frontier = [''__proto__''], nextFrontier = [],
            visitedSnapshot = [''__proto__''], parentsSnapshot = [], found = False\<rparr>] \<and>
   ladderPaths cmp ''__proto__'' ''__proto__'' (words [] ''__proto__'') = Inr [[''__proto__'']]"
  using same_word_inherited[of "''__proto__''" "''__proto__''" cmp]
  by (simp add: toLowerCase_proto objectPrototypeProps_def)

subsection \<open>C9: termination\<close>

text \<open>
  C9 (termination). The loop is the total function \<open>bfsLoop\<close>, whose termination proof uses
  the number of bucket words not yet visited. For every input the engine either throws the
  TypeError or returns a frame sequence with at most one frame more than the word array has
  words; every visited snapshot lies within the word array plus the begin word, and every
  iteration finds the end word, or ends with an empty next frontier, or strictly enlarges
  the visited set.
\<close>

theorem bfs_terminates_bounded:
  "(\<exists>fs. ladderFrames beginWord endWord ws = Inr fs \<and> length fs \<le> Suc (length ws) \<and>
         (\<forall>f \<in> set fs. set (visitedSnapshot f) \<subseteq> insert (toLowerCase beginWord) (set ws)) \<and>
         (\<forall>i<length fs. found (fs ! i) \<or> nextFrontier (fs ! i) = [] \<or>
            set (if i = 0 then [toLowerCase beginWord] else visitedSnapshot (fs ! (i - 1)))
              \<subset> set (visitedSnapshot (fs ! i)))) \<or>
   ladderFrames beginWord endWord ws = Inl TypeError"
proof (cases beginWord endWord "wordLen beginWord" "patternBuckets ws (wordLen beginWord) beginWord"
    rule: frames_cases)
  case mismatch
  then show ?thesis by (simp add: ladderFrames_def)
next
  case error
  then show ?thesis by (simp add: ladderFrames_def)
next
  case (run fs)
  let ?N = "nbrs (wordLen beginWord) (patternBuckets ws (wordLen beginWord) beginWord)"
  note ok = run(4)
  have "\<forall>f \<in> set fs. set (visitedSnapshot f) \<subseteq> insert (toLowerCase beginWord) (set ws)"
  proof
    fix f assume "f \<in> set fs"
    then obtain i where i: "i < length fs" "fs ! i = f" by (auto simp: in_set_conv_nth)
    from runOK_frame[OF ok i(1)] i(2)
    have "set (visitedSnapshot f) = seen ?N (toLowerCase beginWord) (Suc i)"
      by (simp add: frameOK_def)
    with seen_words show "set (visitedSnapshot f) \<subseteq> insert (toLowerCase beginWord) (set ws)"
      by blast
  qed
  moreover have "\<forall>i<length fs. found (fs ! i) \<or> nextFrontier (fs ! i) = [] \<or>
            set (if i = 0 then [toLowerCase beginWord] else visitedSnapshot (fs ! (i - 1)))
              \<subset> set (visitedSnapshot (fs ! i))"
    using runOK_visited_grows[OF ok] by blast
  moreover note run_length_bound[OF ok]
  ultimately show ?thesis using run(2) by (simp add: ladderFrames_def)
qed

theorem bfs_terminates_bounded_witness:
  "\<exists>fs. ladderFrames ''hit'' ''cog'' [''hot'', ''dot'', ''dog'', ''lot'', ''log'', ''cog''] = Inr fs \<and>
     length fs = 4 \<and> length fs \<le> Suc (length [''hot'', ''dot'', ''dog'', ''lot'', ''log'', ''cog'']) \<and>
     (\<forall>f \<in> set fs. set (visitedSnapshot f) \<subseteq>
        insert (toLowerCase ''hit'') (set [''hot'', ''dot'', ''dog'', ''lot'', ''log'', ''cog'']))"
proof -
  let ?ws = "[''hot'', ''dot'', ''dog'', ''lot'', ''log'', ''cog'']"
  obtain fs0 where fs0: "ladderFrames ''hit'' ''cog'' ?ws = Inr fs0" and l: "length fs0 = 4"
    using scenario1_frames by simp
  from bfs_terminates_bounded[of "''hit''" "''cog''" ?ws] fs0
  obtain fs where fs: "ladderFrames ''hit'' ''cog'' ?ws = Inr fs" "length fs \<le> Suc (length ?ws)"
    "\<forall>f \<in> set fs. set (visitedSnapshot f) \<subseteq> insert (toLowerCase ''hit'') (set ?ws)"
    by auto
  with fs0 l have "length fs = 4" by simp
  with fs show ?thesis by blast
qed

subsection \<open>C10: the begin word has no parents\<close>

text \<open>
  C10 (the begin word has no parents). In every frame of a run that returns, the begin word
  is not a key of the parents snapshot; and every path the reconstruction returns from the
  last frame starts with the begin word, contains it nowhere else, and ends with the end
  word.
\<close>

theorem begin_word_has_no_parents:
  assumes "frames beginWord endWord wl buckets = Inr fs"
  shows "(\<forall>f \<in> set fs. toLowerCase beginWord \<notin> fst ` set (parentsSnapshot f)) \<and>
         (\<forall>ps. allPaths cmp (finalParents fs) beginWord endWord = Inr ps \<longrightarrow>
            (\<forall>p \<in> set ps. p \<noteq> [] \<and> hd p = toLowerCase beginWord \<and>
                            toLowerCase beginWord \<notin> set (tl p) \<and> last p = toLowerCase endWord))"
proof (rule conjI)
  show "\<forall>f \<in> set fs. toLowerCase beginWord \<notin> fst ` set (parentsSnapshot f)"
  proof (cases beginWord endWord wl buckets rule: frames_cases)
    case mismatch
    with assms show ?thesis by simp
  next
    case error
    with assms show ?thesis by simp
  next
    case (run fs')
    with assms runOK_src_not_key show ?thesis by auto
  qed
next
  show "\<forall>ps. allPaths cmp (finalParents fs) beginWord endWord = Inr ps \<longrightarrow>
            (\<forall>p \<in> set ps. p \<noteq> [] \<and> hd p = toLowerCase beginWord \<and>
                            toLowerCase beginWord \<notin> set (tl p) \<and> last p = toLowerCase endWord)"
    using assms
  proof (cases rule: allPaths_of_run[where cmp = cmp])
    case (walks res)
    with shortestWalks_shape show ?thesis by auto
  next
    case none
    then show ?thesis by (auto split: if_splits)
  qed
qed

theorem begin_word_has_no_parents_witness:
  "\<exists>fs ps. ladderFrames ''hit'' ''cog'' [''hot'', ''dot'', ''dog'', ''lot'', ''log'', ''cog''] = Inr fs \<and>
     allPaths lexCompare (finalParents fs) ''hit'' ''cog'' = Inr ps \<and>
     length fs = 4 \<and> length ps = 2 \<and>
     (\<forall>f \<in> set fs. toLowerCase ''hit'' \<notin> fst ` set (parentsSnapshot f)) \<and>
     (\<forall>p \<in> set ps. p \<noteq> [] \<and> hd p = toLowerCase ''hit'' \<and>
                     toLowerCase ''hit'' \<notin> set (tl p) \<and> last p = toLowerCase ''cog'')"
proof -
  let ?ws = "[''hot'', ''dot'', ''dog'', ''lot'', ''log'', ''cog'']"
  obtain fs where fs: "ladderFrames ''hit'' ''cog'' ?ws = Inr fs" and l: "length fs = 4"
    using scenario1_frames by simp
  from scenario1_paths[of lexCompare] obtain ps where
    ps: "ladderPaths lexCompare ''hit'' ''cog'' ?ws = Inr ps" "length ps = 2"
    by (auto simp: scenario1_words)
  from ps(1) fs have a: "allPaths lexCompare (finalParents fs) ''hit'' ''cog'' = Inr ps"
    by (simp add: ladderPaths_def)
  from fs have "frames ''hit'' ''cog'' (wordLen ''hit'') (patternBuckets ?ws (wordLen ''hit'') ''hit'') = Inr fs"
    by (simp add: ladderFrames_def)
  from begin_word_has_no_parents[OF this, of lexCompare]
  have c1: "\<forall>f \<in> set fs. toLowerCase ''hit'' \<notin> fst ` set (parentsSnapshot f)"
    and c2: "\<forall>ps. allPaths lexCompare (finalParents fs) ''hit'' ''cog'' = Inr ps \<longrightarrow>
            (\<forall>p \<in> set ps. p \<noteq> [] \<and> hd p = toLowerCase ''hit'' \<and>
                            toLowerCase ''hit'' \<notin> set (tl p) \<and> last p = toLowerCase ''cog'')"
    by (rule conjunct1, rule conjunct2)
  from c2[rule_format, OF a]
  have c3: "\<forall>p \<in> set ps. p \<noteq> [] \<and> hd p = toLowerCase ''hit'' \<and>
                     toLowerCase ''hit'' \<notin> set (tl p) \<and> last p = toLowerCase ''cog''"
    by blast
  show ?thesis
    by (intro exI[of _ fs] exI[of _ ps] conjI fs a l ps(2) c1 c3)
qed

end
